theory Spec2Isabelle
  imports Main
begin

section \<open>RedisDataLoader: a read-through cache in front of a batch fetch\<close>

text \<open>
  The development embeds the class \<^verbatim>\<open>RedisDataLoader\<close>: the batch resolver
  \<^verbatim>\<open>overridedBatchLoad\<close>, \<^verbatim>\<open>exist\<close>, \<^verbatim>\<open>loadCached\<close>,
  \<^verbatim>\<open>clearAsync\<close>, \<^verbatim>\<open>primeAsync\<close> and the constructor.

  The collaborators are taken at their interface. The Redis client is a map from store
  keys to the string written and the expiry it was written with; \<^verbatim>\<open>get\<close>,
  \<^verbatim>\<open>set\<close> and \<^verbatim>\<open>del\<close> always answer, and no time passes, so no entry expires.
  The caller's \<^verbatim>\<open>serialize\<close>, \<^verbatim>\<open>deserialize\<close>, \<^verbatim>\<open>cacheKeyFn\<close>,
  \<^verbatim>\<open>notFound\<close> and batch function are pure functions that return; the calls made
  to the batch function are logged in the state. Logging is left out. One operation runs
  at a time; inside the batch resolver the order in which the answers of the store
  arrive is a parameter.
\<close>

subsection \<open>Values\<close>

text \<open>
  The JavaScript errors the class distinguishes: \<^verbatim>\<open>NotFoundError\<close> (a subclass of
  \<^verbatim>\<open>Error\<close>), the \<^verbatim>\<open>AssertionError\<close> of \<^verbatim>\<open>assert\<close>, and any other
  \<^verbatim>\<open>Error\<close>. Each carries its message.
\<close>

datatype error = Error string | NotFoundError string | AssertionError string

text \<open>
  What a value slot of type \<^verbatim>\<open>V | undefined | Error\<close> holds at run time:
  \<^verbatim>\<open>undefined\<close>, \<^verbatim>\<open>null\<close>, a domain value, or an error object.
\<close>

datatype 'v jsval = Undefined | Null | Val 'v | Err error

text \<open>\<^verbatim>\<open>x instanceof Error\<close> and \<^verbatim>\<open>x instanceof NotFoundError\<close>.\<close>

fun instanceofError :: "'v jsval \<Rightarrow> bool" where
  "instanceofError (Err e) = True"
| "instanceofError v = False"

fun isNotFoundError :: "error \<Rightarrow> bool" where
  "isNotFoundError (NotFoundError m) = True"
| "isNotFoundError e = False"

fun instanceofNotFoundError :: "'v jsval \<Rightarrow> bool" where
  "instanceofNotFoundError (Err e) = isNotFoundError e"
| "instanceofNotFoundError v = False"

text \<open>The operator \<^verbatim>\<open>a ?? b\<close>: \<^verbatim>\<open>b\<close> when \<^verbatim>\<open>a\<close> is null or undefined.\<close>

fun nullish :: "'v jsval \<Rightarrow> bool" where
  "nullish Undefined = True"
| "nullish Null = True"
| "nullish v = False"

definition nullish_coalesce :: "'v jsval \<Rightarrow> 'v jsval \<Rightarrow> 'v jsval" where
  "nullish_coalesce a b = (if nullish a then b else a)"

text \<open>\<^verbatim>\<open>xs[i]\<close> on an array: \<^verbatim>\<open>undefined\<close> out of range.\<close>

definition js_index :: "'v jsval list \<Rightarrow> nat \<Rightarrow> 'v jsval" where
  "js_index xs i = (if i < length xs then xs ! i else Undefined)"

text \<open>
  \<^verbatim>\<open>[...new Set(xs)]\<close>: a Set keeps insertion order, so each element stays at its
  first occurrence.
\<close>

definition js_Set_add :: "'a list \<Rightarrow> 'a \<Rightarrow> 'a list" where
  "js_Set_add s x = (if x \<in> set s then s else s @ [x])"

definition js_Set :: "'a list \<Rightarrow> 'a list" where
  "js_Set xs = foldl js_Set_add [] xs"

subsection \<open>The loader, its options and the world it runs in\<close>

record ('k, 'v) redis_options =
  serialize :: "'v jsval \<Rightarrow> string"
  deserialize :: "'k \<Rightarrow> string \<Rightarrow> 'v jsval"
  ttl :: int
  ttlNotFound :: "int option"
  suffix :: "string option"

record ('k, 'v) options =
  redis :: "('k, 'v) redis_options"
  cacheKeyFn :: "('k \<Rightarrow> string) option"
  notFound :: "('k \<Rightarrow> 'v jsval) option"

text \<open>
  A loader: its name, the caller's batch function and the options. \<open>keyToString\<close> is
  the string JavaScript makes of a key inside a template literal, used when no
  \<^verbatim>\<open>cacheKeyFn\<close> is given.
\<close>

record ('k, 'v) loader =
  name :: string
  underlyingBatchLoadFn :: "'k list \<Rightarrow> 'v jsval list"
  options :: "('k, 'v) options"
  keyToString :: "'k \<Rightarrow> string"

text \<open>
  The world: the store (per key, the string and the \<^verbatim>\<open>EX\<close> seconds of the last
  \<^verbatim>\<open>set\<close>) and the log of the key lists handed to the batch function, oldest first.
\<close>

record 'k world =
  store :: "string \<rightharpoonup> (string \<times> int)"
  calls :: "'k list list"

definition NOT_FOUND_STRING :: string where
  "NOT_FOUND_STRING = ''___NOTFOUND___''"

definition client_get :: "'k world \<Rightarrow> string \<Rightarrow> string option" where
  "client_get w rKey = map_option fst (store w rKey)"

definition client_set :: "string \<Rightarrow> string \<Rightarrow> int \<Rightarrow> 'k world \<Rightarrow> bool \<times> 'k world" where
  "client_set rKey rValue ex w = (True, w\<lparr>store := (store w)(rKey \<mapsto> (rValue, ex))\<rparr>)"

definition client_del :: "string \<Rightarrow> 'k world \<Rightarrow> int \<times> 'k world" where
  "client_del rKey w =
     (case store w rKey of
        None \<Rightarrow> (0, w)
      | Some d \<Rightarrow> (1, w\<lparr>store := (store w)(rKey := None)\<rparr>))"

subsection \<open>Key namespacing and the two writes\<close>

definition redisKey :: "('k, 'v) loader \<Rightarrow> 'k \<Rightarrow> string" where
  "redisKey l key =
     name l @ '':'' @
       (case cacheKeyFn (options l) of Some f \<Rightarrow> f key | None \<Rightarrow> keyToString l key)"

definition store_value :: "('k, 'v) loader \<Rightarrow> string \<Rightarrow> 'v jsval \<Rightarrow> 'k world \<Rightarrow> bool \<times> 'k world" where
  "store_value l rKey v w =
     (let rValue = serialize (redis (options l)) v
      in client_set rKey rValue (ttl (redis (options l))) w)"

definition storeNotFoundError :: "('k, 'v) loader \<Rightarrow> string \<Rightarrow> 'k world \<Rightarrow> bool \<times> 'k world" where
  "storeNotFoundError l rKey w =
     client_set rKey NOT_FOUND_STRING
       (case ttlNotFound (redis (options l)) of None \<Rightarrow> 30 | Some t \<Rightarrow> t) w"

text \<open>\<^verbatim>\<open>this.options.notFound?.(key)\<close>: \<^verbatim>\<open>undefined\<close> without a handler.\<close>

definition call_notFound :: "('k, 'v) loader \<Rightarrow> 'k \<Rightarrow> 'v jsval" where
  "call_notFound l key = (case notFound (options l) of None \<Rightarrow> Undefined | Some h \<Rightarrow> h key)"

subsection \<open>The batch resolver\<close>

record ('k, 'v) entry =
  redisKey_of :: string
  key_of :: 'k
  value_of :: "'v jsval"

definition uniqueRedisKeys :: "('k, 'v) loader \<Rightarrow> 'k list \<Rightarrow> string list" where
  "uniqueRedisKeys l keys = js_Set (map (redisKey l) keys)"

text \<open>
  One entry per distinct store key. \<^verbatim>\<open>keys.find(...)!\<close> is the first key with that
  store key; it exists, since the store key comes from \<open>keys\<close> (lemma \<open>find_representative\<close>).
\<close>

definition mapRedisKeyToModelKey :: "('k, 'v) loader \<Rightarrow> 'k list \<Rightarrow> ('k, 'v) entry list" where
  "mapRedisKeyToModelKey l keys =
     map (\<lambda>rKey. \<lparr>redisKey_of = rKey,
                  key_of = the (find (\<lambda>k. redisKey l k = rKey) keys),
                  value_of = Undefined\<rparr>)
         (uniqueRedisKeys l keys)"

text \<open>The callback run on the answer \<open>data\<close> of \<^verbatim>\<open>client.get(entry.redisKey)\<close>.\<close>

definition onGet :: "('k, 'v) loader \<Rightarrow> string option \<Rightarrow> ('k, 'v) entry \<Rightarrow> ('k, 'v) entry" where
  "onGet l data entry =
     (case data of
        None \<Rightarrow> entry
      | Some d \<Rightarrow>
          if d = NOT_FOUND_STRING
          then entry\<lparr>value_of := nullish_coalesce (call_notFound l (key_of entry)) Undefined\<rparr>
          else entry\<lparr>value_of := deserialize (redis (options l)) (key_of entry) d\<rparr>)"

text \<open>
  \<^verbatim>\<open>await Promise.all(entries.map(entry => get(...).then(callback)))\<close>: every get is
  answered once, and the callbacks run in the order the answers arrive. \<open>arrival\<close> lists
  the entry indices in that order; the callback of index \<open>i\<close> edits entry \<open>i\<close> in place.
\<close>

definition readStep :: "('k, 'v) loader \<Rightarrow> 'k world \<Rightarrow> ('k, 'v) entry list \<Rightarrow> nat \<Rightarrow> ('k, 'v) entry list" where
  "readStep l w es i =
     (if i < length es
      then es[i := onGet l (client_get w (redisKey_of (es ! i))) (es ! i)]
      else es)"

definition readPhase :: "('k, 'v) loader \<Rightarrow> 'k world \<Rightarrow> nat list \<Rightarrow> ('k, 'v) entry list \<Rightarrow> ('k, 'v) entry list" where
  "readPhase l w arrival es = foldl (readStep l w) es arrival"

text \<open>An arrival order for \<open>n\<close> requests: each index below \<open>n\<close> exactly once.\<close>

definition arrival_order :: "nat \<Rightarrow> nat list \<Rightarrow> bool" where
  "arrival_order n arrival \<longleftrightarrow>
     length arrival = n \<and> distinct arrival \<and> list_all (\<lambda>i. i < n) arrival"

text \<open>
  \<^verbatim>\<open>keysToLoadFromDatasource\<close> holds references to the entries whose value is still
  \<^verbatim>\<open>undefined\<close>: here, their indices in the entry list.
\<close>

definition keysToLoadFromDatasource :: "('k, 'v) entry list \<Rightarrow> nat list" where
  "keysToLoadFromDatasource es = filter (\<lambda>r. value_of (es ! r) = Undefined) [0..<length es]"

text \<open>
  The body of the second \<^verbatim>\<open>map\<close>, for the miss \<open>r\<close> at position \<open>index\<close> of the miss
  list: the entry takes the fetched result, which is then written to the store as the
  sentinel, as a value, or not at all.
\<close>

definition saveStep :: "('k, 'v) loader \<Rightarrow> 'v jsval list \<Rightarrow> nat \<times> nat \<Rightarrow>
    ('k, 'v) entry list \<times> 'k world \<Rightarrow> ('k, 'v) entry list \<times> 'k world" where
  "saveStep l underlyingResults ri s =
     (case ri of (r, index) \<Rightarrow>
      case s of (es, w) \<Rightarrow>
        let v = js_index underlyingResults index;
            es' = es[r := (es ! r)\<lparr>value_of := v\<rparr>];
            rKey = redisKey_of (es ! r)
        in if v = Undefined \<or> instanceofNotFoundError v
           then (es', snd (storeNotFoundError l rKey w))
           else if \<not> instanceofError v
           then (es', snd (store_value l rKey v w))
           else (es', w))"

definition savePhase :: "('k, 'v) loader \<Rightarrow> 'v jsval list \<Rightarrow> nat list \<Rightarrow>
    ('k, 'v) entry list \<times> 'k world \<Rightarrow> ('k, 'v) entry list \<times> 'k world" where
  "savePhase l underlyingResults refs s =
     fold (saveStep l underlyingResults) (zip refs [0..<length refs]) s"

text \<open>
  Everything up to the final \<^verbatim>\<open>keys.map\<close>: the entries as they end, and the world.
\<close>

definition resolveEntries :: "('k, 'v) loader \<Rightarrow> nat list \<Rightarrow> 'k list \<Rightarrow> 'k world \<Rightarrow>
    ('k, 'v) entry list \<times> 'k world" where
  "resolveEntries l arrival keys w =
     (let es = readPhase l w arrival (mapRedisKeyToModelKey l keys);
          refs = keysToLoadFromDatasource es
      in if length refs > 0
         then let ks = map (\<lambda>r. key_of (es ! r)) refs;
                  underlyingResults = underlyingBatchLoadFn l ks
              in savePhase l underlyingResults refs (es, w\<lparr>calls := calls w @ [ks]\<rparr>)
         else (es, w))"

text \<open>
  The result for one input key: \<^verbatim>\<open>entries.find(...)?.value ?? notFound?.(key) ?? null\<close>,
  where \<open>find_value\<close> is the part \<^verbatim>\<open>entries.find(...)?.value\<close>.
\<close>

definition find_value :: "('k, 'v) loader \<Rightarrow> ('k, 'v) entry list \<Rightarrow> 'k \<Rightarrow> 'v jsval" where
  "find_value l es key =
     (case find (\<lambda>e. redisKey_of e = redisKey l key) es of
        None \<Rightarrow> Undefined
      | Some e \<Rightarrow> value_of e)"

definition answer :: "('k, 'v) loader \<Rightarrow> ('k, 'v) entry list \<Rightarrow> 'k \<Rightarrow> 'v jsval" where
  "answer l es key =
     nullish_coalesce (nullish_coalesce (find_value l es key) (call_notFound l key)) Null"

definition overridedBatchLoad :: "('k, 'v) loader \<Rightarrow> nat list \<Rightarrow> 'k list \<Rightarrow> 'k world \<Rightarrow>
    'v jsval list \<times> 'k world" where
  "overridedBatchLoad l arrival keys w =
     (case resolveEntries l arrival keys w of (es, w') \<Rightarrow> (map (answer l es) keys, w'))"

subsection \<open>The operations built on the batch resolver\<close>

text \<open>
  \<^verbatim>\<open>load(key)\<close> of the \<^verbatim>\<open>dataloader\<close> package, for a request alone in its tick and
  with the memoisation cache off (the constructor passes \<^verbatim>\<open>cache: false\<close>): the batch
  function is called with \<open>[key]\<close>, and the promise rejects when the result is an error
  object and resolves with the result otherwise. A batch of one key has one entry, hence
  one arrival order.
\<close>

definition settle :: "'v jsval \<Rightarrow> error + 'v jsval" where
  "settle v = (case v of Err e \<Rightarrow> Inl e | _ \<Rightarrow> Inr v)"

definition load :: "('k, 'v) loader \<Rightarrow> 'k \<Rightarrow> 'k world \<Rightarrow> (error + 'v jsval) \<times> 'k world" where
  "load l key w =
     (case overridedBatchLoad l [0] [key] w of (rs, w') \<Rightarrow> (settle (js_index rs 0), w'))"

definition primeAsync :: "('k, 'v) loader \<Rightarrow> 'k \<Rightarrow> 'v jsval \<Rightarrow> 'k world \<Rightarrow> bool \<times> 'k world" where
  "primeAsync l key v w =
     (if \<not> instanceofError v then store_value l (redisKey l key) v w else (False, w))"

text \<open>\<^verbatim>\<open>keys.map(key => client.del(redisKey(key)))\<close>, the deletions in order.\<close>

fun delAll :: "('k, 'v) loader \<Rightarrow> 'k list \<Rightarrow> 'k world \<Rightarrow> int list \<times> 'k world" where
  "delAll l [] w = ([], w)"
| "delAll l (key # keys) w =
     (case client_del (redisKey l key) w of (n, w') \<Rightarrow>
      case delAll l keys w' of (ns, w'') \<Rightarrow> (n # ns, w''))"

definition clearAsync :: "('k, 'v) loader \<Rightarrow> 'k list \<Rightarrow> 'k world \<Rightarrow> (error + int) \<times> 'k world" where
  "clearAsync l keys w =
     (if length keys = 0 then (Inl (Error ''Empty array passed''), w)
      else case delAll l keys w of (res, w') \<Rightarrow> (Inr (foldl (\<lambda>acc curr. acc + curr) 0 res), w'))"

text \<open>
  The Lua script of \<^verbatim>\<open>exist\<close>: \<^verbatim>\<open>true\<close> for a key holding anything but the sentinel,
  the sentinel itself for a key holding it, \<^verbatim>\<open>nil\<close> for a missing key.
\<close>

datatype script_reply = ReplyTrue | ReplyNotFound | ReplyNil

definition exist_script :: "'k world \<Rightarrow> string \<Rightarrow> script_reply" where
  "exist_script w rKey =
     (case client_get w rKey of
        Some d \<Rightarrow> if d \<noteq> NOT_FOUND_STRING then ReplyTrue else ReplyNotFound
      | None \<Rightarrow> ReplyNil)"

definition exist :: "('k, 'v) loader \<Rightarrow> 'k \<Rightarrow> 'k world \<Rightarrow> (error + bool) \<times> 'k world" where
  "exist l key w =
     (let result = exist_script w (redisKey l key)
      in if result \<noteq> ReplyNil then (Inr (result \<noteq> ReplyNotFound), w)
         else case load l key w of
                (Inr v, w') \<Rightarrow> (Inr (v \<noteq> Undefined), w')
              | (Inl error, w') \<Rightarrow>
                  if isNotFoundError error then (Inr False, w') else (Inl error, w'))"

text \<open>
  \<^verbatim>\<open>loadCached\<close>: the classification of one re-read answer, and the whole method. The
  destructuring \<^verbatim>\<open>const [retorno] = ...\<close> takes the first element, \<^verbatim>\<open>undefined\<close> for
  no keys.
\<close>

definition classify :: "('k, 'v) loader \<Rightarrow> 'k \<Rightarrow> string option \<Rightarrow> 'v jsval" where
  "classify l key data =
     (case data of
        None \<Rightarrow> Null
      | Some d \<Rightarrow>
          if d = NOT_FOUND_STRING then nullish_coalesce (call_notFound l key) Null
          else deserialize (redis (options l)) key d)"

definition loadCached :: "('k, 'v) loader \<Rightarrow> nat list \<Rightarrow> 'k list \<Rightarrow> 'k world \<Rightarrow> 'v jsval \<times> 'k world" where
  "loadCached l arrival keys w =
     (case overridedBatchLoad l arrival keys w of (rs, w') \<Rightarrow>
        let datas = map (\<lambda>key. client_get w' (redisKey l key)) keys
        in (js_index (map (\<lambda>(key, data). classify l key data) (zip keys datas)) 0, w'))"

subsection \<open>The constructor and the name registry\<close>

record registry =
  checkForDuplicates :: bool
  usedNames :: "string set"

definition suffixed_name :: "string \<Rightarrow> ('k, 'v) options \<Rightarrow> string" where
  "suffixed_name nm opts =
     nm @ (case suffix (redis opts) of
             None \<Rightarrow> ''''
           | Some s \<Rightarrow> if s \<noteq> '''' then ''-'' @ s else '''')"

definition constructor :: "string \<Rightarrow> ('k list \<Rightarrow> 'v jsval list) \<Rightarrow> ('k, 'v) options \<Rightarrow>
    ('k \<Rightarrow> string) \<Rightarrow> registry \<Rightarrow> error + (('k, 'v) loader \<times> registry)" where
  "constructor nm batchLoadFn opts toStr reg =
     (let nm' = suffixed_name nm opts
      in if checkForDuplicates reg \<and> nm' \<in> usedNames reg
         then Inl (AssertionError (''RedisDataLoader name '' @ nm' @ '' already used''))
         else Inr (\<lparr>name = nm', underlyingBatchLoadFn = batchLoadFn, options = opts,
                    keyToString = toStr\<rparr>,
                   reg\<lparr>usedNames := insert nm' (usedNames reg)\<rparr>))"

subsection \<open>Notions used to state the properties\<close>

text \<open>
  The entry after the answer of the store for it; what a write leaves under a store key;
  the entries after all answers; the representative keys, in entry order; whether the
  lookup of a key leaves its entry \<^verbatim>\<open>undefined\<close>; the keys of those entries; and the
  results the batch function gives for them.
\<close>

definition lookup :: "('k, 'v) loader \<Rightarrow> 'k world \<Rightarrow> ('k, 'v) entry \<Rightarrow> ('k, 'v) entry" where
  "lookup l w e = onGet l (client_get w (redisKey_of e)) e"

definition written :: "('k, 'v) loader \<Rightarrow> 'v jsval \<Rightarrow> (string \<times> int) option \<Rightarrow> (string \<times> int) option" where
  "written l v old =
     (if v = Undefined \<or> instanceofNotFoundError v
      then Some (NOT_FOUND_STRING, case ttlNotFound (redis (options l)) of None \<Rightarrow> 30 | Some t \<Rightarrow> t)
      else if \<not> instanceofError v
      then Some (serialize (redis (options l)) v, ttl (redis (options l)))
      else old)"

definition cached :: "('k, 'v) loader \<Rightarrow> 'k list \<Rightarrow> 'k world \<Rightarrow> ('k, 'v) entry list" where
  "cached l keys w = map (lookup l w) (mapRedisKeyToModelKey l keys)"

definition representatives :: "('k, 'v) loader \<Rightarrow> 'k list \<Rightarrow> 'k list" where
  "representatives l keys = map key_of (mapRedisKeyToModelKey l keys)"

definition unresolved :: "('k, 'v) loader \<Rightarrow> 'k world \<Rightarrow> 'k \<Rightarrow> bool" where
  "unresolved l w key =
     (case client_get w (redisKey l key) of
        None \<Rightarrow> True
      | Some d \<Rightarrow>
          if d = NOT_FOUND_STRING then nullish (call_notFound l key)
          else deserialize (redis (options l)) key d = Undefined)"

definition missKeys :: "('k, 'v) loader \<Rightarrow> 'k list \<Rightarrow> 'k world \<Rightarrow> 'k list" where
  "missKeys l keys w = filter (unresolved l w) (representatives l keys)"

definition fetched :: "('k, 'v) loader \<Rightarrow> 'k list \<Rightarrow> 'k world \<Rightarrow> 'v jsval list" where
  "fetched l keys w = underlyingBatchLoadFn l (missKeys l keys w)"

subsection \<open>A concrete loader\<close>

text \<open>
  A loader named \<open>users\<close> over string keys and numbers: a number \<open>n\<close> is stored as
  \<open>n\<close> letters, \<^verbatim>\<open>null\<close> as the word \<open>null\<close>; the batch function knows the key
  \<open>a\<close> only. No handler for missing values is configured.
\<close>

definition ex_options :: "(string, nat) options" where
  "ex_options =
     \<lparr>redis = \<lparr>serialize = (\<lambda>v. case v of Val n \<Rightarrow> replicate n CHR ''x'' | _ \<Rightarrow> ''null''),
               deserialize = (\<lambda>k s. if s = ''null'' then Null else Val (length s)),
               ttl = 60, ttlNotFound = None, suffix = None\<rparr>,
      cacheKeyFn = None, notFound = None\<rparr>"

definition ex_loader :: "(string, nat) loader" where
  "ex_loader =
     \<lparr>name = ''users'',
      underlyingBatchLoadFn = map (\<lambda>k. if k = ''a'' then Val 1 else Undefined),
      options = ex_options, keyToString = id\<rparr>"

definition ex_registry :: registry where
  "ex_registry = \<lparr>checkForDuplicates = True, usedNames = {''users''}\<rparr>"

definition ex_empty :: "string world" where
  "ex_empty = \<lparr>store = Map.empty, calls = []\<rparr>"

text \<open>A world where \<open>a\<close> is cached as the number 1.\<close>

definition ex_cached_a :: "string world" where
  "ex_cached_a = \<lparr>store = [''users:a'' \<mapsto> (''x'', 60)], calls = []\<rparr>"

text \<open>A world where \<open>b\<close> is cached as missing.\<close>

definition ex_negative_b :: "string world" where
  "ex_negative_b = \<lparr>store = [''users:b'' \<mapsto> (''___NOTFOUND___'', 30)], calls = []\<rparr>"

text \<open>
  Variants of the loader: one whose \<^verbatim>\<open>cacheKeyFn\<close> keeps the first letter of a key
  and whose handler makes a not-found error naming the key; one with that handler only;
  one whose handler returns \<^verbatim>\<open>undefined\<close>. And a world where \<open>c\<close> is cached as
  \<^verbatim>\<open>null\<close>.
\<close>

definition ex_prefix_loader :: "(string, nat) loader" where
  "ex_prefix_loader =
     ex_loader\<lparr>options := ex_options\<lparr>cacheKeyFn := Some (take 1),
                                       notFound := Some (\<lambda>k. Err (NotFoundError k))\<rparr>\<rparr>"

definition ex_handler_loader :: "(string, nat) loader" where
  "ex_handler_loader =
     ex_loader\<lparr>options := ex_options\<lparr>notFound := Some (\<lambda>k. Err (NotFoundError k))\<rparr>\<rparr>"

definition ex_silent_loader :: "(string, nat) loader" where
  "ex_silent_loader = ex_loader\<lparr>options := ex_options\<lparr>notFound := Some (\<lambda>k. Undefined)\<rparr>\<rparr>"

definition ex_null_c :: "string world" where
  "ex_null_c = \<lparr>store = [''users:c'' \<mapsto> (''null'', 60)], calls = []\<rparr>"

text \<open>
  Two loaders that differ at most in their batch function; and a variant of the concrete
  loader whose batch function fails for every key but \<open>a\<close>.
\<close>

definition same_settings :: "('k, 'v) loader \<Rightarrow> ('k, 'v) loader \<Rightarrow> bool" where
  "same_settings l l' \<longleftrightarrow>
     name l' = name l \<and> options l' = options l \<and> keyToString l' = keyToString l"

definition ex_failing_loader :: "(string, nat) loader" where
  "ex_failing_loader =
     ex_loader\<lparr>underlyingBatchLoadFn :=
                 map (\<lambda>k. if k = ''a'' then Val 1 else Err (Error ''boom''))\<rparr>"

text \<open>
  A loader of strings that stores a string as it is, with a negative expiry of 5 seconds
  and a batch function that finds nothing.
\<close>

definition ex_text_loader :: "(string, string) loader" where
  "ex_text_loader =
     \<lparr>name = ''notes'', underlyingBatchLoadFn = map (\<lambda>k. Undefined),
      options = \<lparr>redis = \<lparr>serialize = (\<lambda>v. case v of Val s \<Rightarrow> s | _ \<Rightarrow> ''''),
                         deserialize = (\<lambda>k s. Val s), ttl = 60, ttlNotFound = Some 5,
                         suffix = None\<rparr>,
                 cacheKeyFn = None, notFound = None\<rparr>,
      keyToString = id\<rparr>"

section \<open>Properties\<close>

subsection \<open>Deduplication and the entries\<close>

lemma foldl_js_Set_add_set: "set (foldl js_Set_add s xs) = set s \<union> set xs"
  by (induction xs arbitrary: s) (auto simp: js_Set_add_def)

lemma foldl_js_Set_add_distinct: "distinct s \<Longrightarrow> distinct (foldl js_Set_add s xs)"
  by (induction xs arbitrary: s) (auto simp: js_Set_add_def)

lemma set_js_Set: "set (js_Set xs) = set xs"
  by (simp add: js_Set_def foldl_js_Set_add_set)

lemma distinct_js_Set: "distinct (js_Set xs)"
  by (simp add: js_Set_def foldl_js_Set_add_distinct)

lemma set_uniqueRedisKeys: "set (uniqueRedisKeys l keys) = redisKey l ` set keys"
  by (simp add: uniqueRedisKeys_def set_js_Set)

lemma distinct_uniqueRedisKeys: "distinct (uniqueRedisKeys l keys)"
  by (simp add: uniqueRedisKeys_def distinct_js_Set)

lemma find_representative:
  assumes "rKey \<in> set (uniqueRedisKeys l keys)"
  shows "\<exists>k. find (\<lambda>k. redisKey l k = rKey) keys = Some k \<and> k \<in> set keys \<and> redisKey l k = rKey"
proof -
  from assms obtain k0 where "k0 \<in> set keys" "redisKey l k0 = rKey"
    by (auto simp: set_uniqueRedisKeys)
  then have "find (\<lambda>k. redisKey l k = rKey) keys \<noteq> None"
    by (auto simp: find_None_iff)
  then obtain k where k: "find (\<lambda>k. redisKey l k = rKey) keys = Some k" by auto
  then have "k \<in> set keys \<and> redisKey l k = rKey"
    by (auto simp: find_Some_iff)
  with k show ?thesis by blast
qed

lemma length_entries: "length (mapRedisKeyToModelKey l keys) = length (uniqueRedisKeys l keys)"
  by (simp add: mapRedisKeyToModelKey_def)

lemma redisKey_of_entries:
  "map redisKey_of (mapRedisKeyToModelKey l keys) = uniqueRedisKeys l keys"
  by (simp add: mapRedisKeyToModelKey_def comp_def)

lemma entry_wf:
  assumes "e \<in> set (mapRedisKeyToModelKey l keys)"
  shows "redisKey l (key_of e) = redisKey_of e \<and> key_of e \<in> set keys \<and> value_of e = Undefined"
proof -
  from assms obtain rKey where r: "rKey \<in> set (uniqueRedisKeys l keys)"
    and e: "e = \<lparr>redisKey_of = rKey, key_of = the (find (\<lambda>k. redisKey l k = rKey) keys), value_of = Undefined\<rparr>"
    by (auto simp: mapRedisKeyToModelKey_def)
  from find_representative[OF r] e show ?thesis by auto
qed

lemma foldl_readStep:
  assumes "distinct arrival"
  shows "length (foldl (readStep l w) es arrival) = length es \<and>
         (\<forall>j<length es. foldl (readStep l w) es arrival ! j =
            (if j \<in> set arrival then lookup l w (es ! j) else es ! j))"
  using assms
proof (induction arrival arbitrary: es)
  case Nil
  show ?case by simp
next
  case (Cons i arrival)
  let ?es = "readStep l w es i"
  have len: "length ?es = length es" by (simp add: readStep_def)
  have d: "distinct arrival" and ni: "i \<notin> set arrival" using Cons.prems by auto
  have nth: "\<forall>j<length es. ?es ! j = (if j = i then lookup l w (es ! j) else es ! j)"
    by (auto simp: readStep_def lookup_def)
  from Cons.IH[OF d, of ?es] len nth ni show ?case by auto
qed

lemma arrival_order_set:
  assumes "arrival_order n arrival"
  shows "set arrival = {..<n}"
proof -
  from assms have l: "length arrival = n" and d: "distinct arrival" and b: "set arrival \<subseteq> {..<n}"
    by (auto simp: arrival_order_def list_all_iff)
  from d l have "card (set arrival) = n" by (simp add: distinct_card)
  with b show ?thesis by (simp add: card_subset_eq)
qed

lemma readPhase_arrival:
  assumes "arrival_order (length es) arrival"
  shows "readPhase l w arrival es = map (lookup l w) es"
proof (rule nth_equalityI)
  from assms have d: "distinct arrival" by (simp add: arrival_order_def)
  from foldl_readStep[OF d, of l w es] show "length (readPhase l w arrival es) = length (map (lookup l w) es)"
    by (simp add: readPhase_def)
  fix j assume "j < length (readPhase l w arrival es)"
  with foldl_readStep[OF d, of l w es] arrival_order_set[OF assms]
  show "readPhase l w arrival es ! j = map (lookup l w) es ! j"
    by (simp add: readPhase_def)
qed

lemma saveStep_simp:
  "saveStep l rs (r, i) (es, w) =
     (es[r := (es ! r)\<lparr>value_of := js_index rs i\<rparr>],
      w\<lparr>store := (store w)(redisKey_of (es ! r) := written l (js_index rs i) (store w (redisKey_of (es ! r))))\<rparr>)"
  by (simp add: saveStep_def written_def Let_def storeNotFoundError_def store_value_def client_set_def)

lemma redisKey_of_set_value:
  "redisKey_of (es[r := (es ! r)\<lparr>value_of := v\<rparr>] ! j) = redisKey_of (es ! j)"
  by (cases "r < length es"; cases "j = r"; simp add: list_update_beyond)

lemma key_of_set_value:
  "key_of (es[r := (es ! r)\<lparr>value_of := v\<rparr>] ! j) = key_of (es ! j)"
  by (cases "r < length es"; cases "j = r"; simp add: list_update_beyond)

lemma savePhase_length:
  "length (fst (fold (saveStep l rs) ps (es, w))) = length es"
proof (induction ps arbitrary: es w)
  case Nil show ?case by simp
next
  case (Cons p ps)
  obtain r i where p: "p = (r, i)" by (cases p)
  show ?case by (simp add: p saveStep_simp Cons.IH)
qed

lemma savePhase_redisKey_of:
  "redisKey_of (fst (fold (saveStep l rs) ps (es, w)) ! j) = redisKey_of (es ! j)"
proof (induction ps arbitrary: es w)
  case Nil show ?case by simp
next
  case (Cons p ps)
  obtain r i where p: "p = (r, i)" by (cases p)
  show ?case by (simp add: p saveStep_simp Cons.IH redisKey_of_set_value)
qed

lemma savePhase_key_of:
  "key_of (fst (fold (saveStep l rs) ps (es, w)) ! j) = key_of (es ! j)"
proof (induction ps arbitrary: es w)
  case Nil show ?case by simp
next
  case (Cons p ps)
  obtain r i where p: "p = (r, i)" by (cases p)
  show ?case by (simp add: p saveStep_simp Cons.IH key_of_set_value)
qed

lemma savePhase_untouched:
  "j \<notin> fst ` set ps \<Longrightarrow> fst (fold (saveStep l rs) ps (es, w)) ! j = es ! j"
proof (induction ps arbitrary: es w)
  case Nil show ?case by simp
next
  case (Cons p ps)
  obtain r i where p: "p = (r, i)" by (cases p)
  from Cons.prems have "j \<noteq> r" "j \<notin> fst ` set ps" by (auto simp: p)
  then show ?case by (simp add: p saveStep_simp Cons.IH)
qed

lemma savePhase_value_of:
  assumes "distinct (map fst ps)" "(r, i) \<in> set ps" "r < length es"
  shows "value_of (fst (fold (saveStep l rs) ps (es, w)) ! r) = js_index rs i"
  using assms
proof (induction ps arbitrary: es w)
  case Nil then show ?case by simp
next
  case (Cons p ps)
  obtain r0 i0 where p: "p = (r0, i0)" by (cases p)
  let ?es = "es[r0 := (es ! r0)\<lparr>value_of := js_index rs i0\<rparr>]"
  show ?case
  proof (cases "(r, i) = (r0, i0)")
    case True
    with Cons.prems have "r \<notin> fst ` set ps" by (auto simp: p)
    then have "fst (fold (saveStep l rs) ps (?es, w')) ! r = ?es ! r" for w'
      by (rule savePhase_untouched)
    with True Cons.prems(3) show ?thesis
      by (simp add: p saveStep_simp)
  next
    case False
    with Cons.prems have "(r, i) \<in> set ps" "distinct (map fst ps)" "r < length ?es"
      by (auto simp: p)
    from Cons.IH[OF this(2) this(1) this(3)] show ?thesis
      by (simp add: p saveStep_simp)
  qed
qed

lemma savePhase_calls:
  "calls (snd (fold (saveStep l rs) ps (es, w))) = calls w"
proof (induction ps arbitrary: es w)
  case Nil show ?case by simp
next
  case (Cons p ps)
  obtain r i where p: "p = (r, i)" by (cases p)
  show ?case by (simp add: p saveStep_simp Cons.IH)
qed

lemma savePhase_store_other:
  assumes "x \<notin> (\<lambda>p. redisKey_of (es ! fst p)) ` set ps"
  shows "store (snd (fold (saveStep l rs) ps (es, w))) x = store w x"
  using assms
proof (induction ps arbitrary: es w)
  case Nil show ?case by simp
next
  case (Cons p ps)
  obtain r i where p: "p = (r, i)" by (cases p)
  let ?es = "es[r := (es ! r)\<lparr>value_of := js_index rs i\<rparr>]"
  from Cons.prems have ne: "x \<noteq> redisKey_of (es ! r)"
    and rest: "x \<notin> (\<lambda>p. redisKey_of (?es ! fst p)) ` set ps"
    by (auto simp: p redisKey_of_set_value)
  from Cons.IH[OF rest] ne show ?case by (simp add: p saveStep_simp)
qed

lemma savePhase_store_written:
  assumes "distinct (map (\<lambda>p. redisKey_of (es ! fst p)) ps)" "(r, i) \<in> set ps"
  shows "store (snd (fold (saveStep l rs) ps (es, w))) (redisKey_of (es ! r)) =
         written l (js_index rs i) (store w (redisKey_of (es ! r)))"
  using assms
proof (induction ps arbitrary: es w)
  case Nil then show ?case by simp
next
  case (Cons p ps)
  obtain r0 i0 where p: "p = (r0, i0)" by (cases p)
  let ?es = "es[r0 := (es ! r0)\<lparr>value_of := js_index rs i0\<rparr>]"
  show ?case
  proof (cases "(r, i) = (r0, i0)")
    case True
    with Cons.prems have "redisKey_of (es ! r) \<notin> (\<lambda>p. redisKey_of (?es ! fst p)) ` set ps"
      by (auto simp: p redisKey_of_set_value)
    then have "store (snd (fold (saveStep l rs) ps (?es, w'))) (redisKey_of (es ! r)) =
        store w' (redisKey_of (es ! r))" for w'
      by (rule savePhase_store_other)
    with True show ?thesis
      by (simp add: p saveStep_simp)
  next
    case False
    with Cons.prems have mem: "(r, i) \<in> set ps"
      and d: "distinct (map (\<lambda>p. redisKey_of (?es ! fst p)) ps)"
      by (auto simp: p redisKey_of_set_value)
    from mem have "redisKey_of (es ! r) \<in> (\<lambda>p. redisKey_of (es ! fst p)) ` set ps"
      by force
    moreover from Cons.prems(1)
    have "redisKey_of (es ! r0) \<notin> (\<lambda>p. redisKey_of (es ! fst p)) ` set ps"
      by (simp add: p)
    ultimately have ne: "redisKey_of (es ! r) \<noteq> redisKey_of (es ! r0)"
      by metis
    from Cons.IH[OF d mem] ne show ?thesis
      by (simp add: p saveStep_simp redisKey_of_set_value)
  qed
qed

lemma lookup_fields [simp]:
  "redisKey_of (lookup l w e) = redisKey_of e" "key_of (lookup l w e) = key_of e"
  by (simp_all add: lookup_def onGet_def split: option.splits)

lemma lookup_unresolved:
  assumes "redisKey l (key_of e) = redisKey_of e" "value_of e = Undefined"
  shows "value_of (lookup l w e) = Undefined \<longleftrightarrow> unresolved l w (key_of e)"
  using assms
  by (cases "call_notFound l (key_of e)")
     (simp_all add: lookup_def onGet_def unresolved_def nullish_coalesce_def split: option.splits)

lemma length_cached: "length (cached l keys w) = length (uniqueRedisKeys l keys)"
  by (simp add: cached_def length_entries)

lemma redisKey_of_cached: "map redisKey_of (cached l keys w) = uniqueRedisKeys l keys"
  by (simp add: cached_def comp_def redisKey_of_entries[symmetric])

lemma key_of_cached: "map key_of (cached l keys w) = representatives l keys"
  by (simp add: cached_def comp_def representatives_def)

lemma cached_nth_redisKey:
  "j < length (uniqueRedisKeys l keys) \<Longrightarrow> redisKey_of (cached l keys w ! j) = uniqueRedisKeys l keys ! j"
  using redisKey_of_cached[of l keys w] length_cached[of l keys w]
  by (metis nth_map)

lemma cached_wf:
  assumes "e \<in> set (cached l keys w)"
  shows "redisKey l (key_of e) = redisKey_of e \<and> key_of e \<in> set keys"
  using assms entry_wf by (fastforce simp: cached_def)

lemma map_filter_nth:
  "map (\<lambda>r. f (xs ! r)) (filter (\<lambda>r. P (xs ! r)) [0..<length xs]) = map f (filter P xs)"
proof -
  have "map f (filter P xs) = map f (filter P (map (nth xs) [0..<length xs]))"
    by (simp add: map_nth)
  also have "\<dots> = map (\<lambda>r. f (xs ! r)) (filter (\<lambda>r. P (xs ! r)) [0..<length xs])"
    by (simp add: filter_map comp_def)
  finally show ?thesis by simp
qed

lemma missKeys_refs:
  "map (\<lambda>r. key_of (cached l keys w ! r)) (keysToLoadFromDatasource (cached l keys w)) = missKeys l keys w"
proof -
  let ?es = "mapRedisKeyToModelKey l keys"
  have f: "filter ((\<lambda>e. value_of e = Undefined) \<circ> lookup l w) ?es = filter (unresolved l w \<circ> key_of) ?es"
  proof (rule filter_cong[OF refl])
    fix e assume "e \<in> set ?es"
    from entry_wf[OF this] show "((\<lambda>e. value_of e = Undefined) \<circ> lookup l w) e = (unresolved l w \<circ> key_of) e"
      by (simp add: lookup_unresolved)
  qed
  have m: "key_of \<circ> lookup l w = key_of" by (simp add: fun_eq_iff)
  have "map key_of (filter (\<lambda>e. value_of e = Undefined) (cached l keys w)) =
        filter (unresolved l w) (map key_of ?es)"
    by (simp add: cached_def filter_map f m)
  with map_filter_nth[of key_of "cached l keys w" "\<lambda>e. value_of e = Undefined"]
  show ?thesis
    by (simp add: keysToLoadFromDatasource_def missKeys_def representatives_def)
qed

lemma length_refs:
  "length (keysToLoadFromDatasource (cached l keys w)) = length (missKeys l keys w)"
  using missKeys_refs[of l keys w] by (metis length_map)

lemma resolveEntries_unfold:
  assumes "arrival_order (length (uniqueRedisKeys l keys)) arrival"
  shows "resolveEntries l arrival keys w =
     (if missKeys l keys w = [] then (cached l keys w, w)
      else savePhase l (fetched l keys w) (keysToLoadFromDatasource (cached l keys w))
             (cached l keys w, w\<lparr>calls := calls w @ [missKeys l keys w]\<rparr>))"
proof -
  from assms have "readPhase l w arrival (mapRedisKeyToModelKey l keys) = cached l keys w"
    by (simp add: readPhase_arrival length_entries cached_def)
  moreover have "missKeys l keys w = [] \<longleftrightarrow> length (keysToLoadFromDatasource (cached l keys w)) = 0"
    by (simp add: length_refs)
  ultimately show ?thesis
    by (simp add: resolveEntries_def Let_def missKeys_refs fetched_def)
qed

lemma refs_set:
  "set (keysToLoadFromDatasource es) = {j. j < length es \<and> value_of (es ! j) = Undefined}"
  by (auto simp: keysToLoadFromDatasource_def)

lemma refs_distinct: "distinct (keysToLoadFromDatasource es)"
  by (simp add: keysToLoadFromDatasource_def)

lemma refs_nth:
  assumes "i < length (missKeys l keys w)"
  defines "r \<equiv> keysToLoadFromDatasource (cached l keys w) ! i"
  shows "r < length (cached l keys w)" "value_of (cached l keys w ! r) = Undefined"
    "key_of (cached l keys w ! r) = missKeys l keys w ! i"
    "redisKey_of (cached l keys w ! r) = redisKey l (missKeys l keys w ! i)"
proof -
  from assms(1) have i: "i < length (keysToLoadFromDatasource (cached l keys w))"
    by (simp add: length_refs)
  then have "r \<in> set (keysToLoadFromDatasource (cached l keys w))"
    unfolding r_def by (rule nth_mem)
  then show r: "r < length (cached l keys w)" and "value_of (cached l keys w ! r) = Undefined"
    by (simp_all add: refs_set)
  from i show k: "key_of (cached l keys w ! r) = missKeys l keys w ! i"
    unfolding r_def missKeys_refs[symmetric] by simp
  from r have "cached l keys w ! r \<in> set (cached l keys w)" by (rule nth_mem)
  from cached_wf[OF this] k show "redisKey_of (cached l keys w ! r) = redisKey l (missKeys l keys w ! i)"
    by simp
qed

lemma refs_zip_mem:
  "i < length refs \<Longrightarrow> (refs ! i, i) \<in> set (zip refs [0..<length refs])"
  by (force simp: set_zip)

lemma refs_zip_fst: "map fst (zip refs [0..<length refs]) = refs"
  by (simp add: map_fst_zip)

lemma map_fst_zip_gen: "length xs = length ys \<Longrightarrow> map (\<lambda>p. f (fst p)) (zip xs ys) = map f xs"
  by (induction xs ys rule: list_induct2) simp_all

lemma refs_zip_map: "map (\<lambda>p. f (fst p)) (zip refs [0..<length refs]) = map f refs"
  by (simp add: map_fst_zip_gen)

lemma refs_zip_image: "(\<lambda>p. f (fst p)) ` set (zip refs [0..<length refs]) = f ` set refs"
  using arg_cong[OF refs_zip_map[of f refs], of set] by (simp only: set_map)

lemma redisKey_of_refs_distinct:
  "distinct (map (\<lambda>p. redisKey_of (cached l keys w ! fst p))
      (zip (keysToLoadFromDatasource (cached l keys w))
           [0..<length (keysToLoadFromDatasource (cached l keys w))]))"
proof -
  let ?es = "cached l keys w" and ?refs = "keysToLoadFromDatasource (cached l keys w)"
  have eq: "map (\<lambda>p. redisKey_of (?es ! fst p)) (zip ?refs [0..<length ?refs]) =
        map (\<lambda>r. redisKey_of (?es ! r)) ?refs"
    by (rule refs_zip_map)
  have "inj_on (\<lambda>r. redisKey_of (?es ! r)) (set ?refs)"
  proof (rule inj_onI)
    fix a b assume a: "a \<in> set ?refs" and b: "b \<in> set ?refs"
      and e: "redisKey_of (?es ! a) = redisKey_of (?es ! b)"
    from a b have la: "a < length (uniqueRedisKeys l keys)" and lb: "b < length (uniqueRedisKeys l keys)"
      by (simp_all add: refs_set length_cached)
    with e have "uniqueRedisKeys l keys ! a = uniqueRedisKeys l keys ! b"
      by (simp add: cached_nth_redisKey)
    with la lb show "a = b"
      by (simp add: nth_eq_iff_index_eq distinct_uniqueRedisKeys)
  qed
  with refs_distinct show ?thesis
    unfolding eq by (simp add: distinct_map)
qed

lemma resolve_length:
  assumes "arrival_order (length (uniqueRedisKeys l keys)) arrival"
  shows "length (fst (resolveEntries l arrival keys w)) = length (uniqueRedisKeys l keys)"
  by (simp add: resolveEntries_unfold[OF assms] savePhase_def savePhase_length length_cached)

lemma resolve_redisKey_of_nth:
  assumes "arrival_order (length (uniqueRedisKeys l keys)) arrival" "j < length (uniqueRedisKeys l keys)"
  shows "redisKey_of (fst (resolveEntries l arrival keys w) ! j) = uniqueRedisKeys l keys ! j"
  using assms(2)
  by (simp add: resolveEntries_unfold[OF assms(1)] savePhase_def savePhase_redisKey_of cached_nth_redisKey)

lemma resolve_redisKey_of:
  assumes "arrival_order (length (uniqueRedisKeys l keys)) arrival"
  shows "map redisKey_of (fst (resolveEntries l arrival keys w)) = uniqueRedisKeys l keys"
  by (rule nth_equalityI) (simp_all add: resolve_length[OF assms] resolve_redisKey_of_nth[OF assms])

lemma resolve_calls:
  assumes "arrival_order (length (uniqueRedisKeys l keys)) arrival"
  shows "calls (snd (resolveEntries l arrival keys w)) =
     (if missKeys l keys w = [] then calls w else calls w @ [missKeys l keys w])"
  by (simp add: resolveEntries_unfold[OF assms] savePhase_def savePhase_calls)

lemma resolve_fetched_value:
  assumes "arrival_order (length (uniqueRedisKeys l keys)) arrival" "i < length (missKeys l keys w)"
  shows "value_of (fst (resolveEntries l arrival keys w) ! (keysToLoadFromDatasource (cached l keys w) ! i)) =
         js_index (fetched l keys w) i"
proof -
  let ?refs = "keysToLoadFromDatasource (cached l keys w)"
  from assms(2) have ne: "missKeys l keys w \<noteq> []" by auto
  from assms(2) have i: "i < length ?refs" by (simp add: length_refs)
  have "distinct (map fst (zip ?refs [0..<length ?refs]))"
    by (simp only: refs_zip_fst refs_distinct)
  with ne show ?thesis
    by (simp add: resolveEntries_unfold[OF assms(1)] savePhase_def
        savePhase_value_of[OF _ refs_zip_mem[OF i] refs_nth(1)[OF assms(2)]])
qed

lemma resolve_hit:
  assumes "arrival_order (length (uniqueRedisKeys l keys)) arrival"
    "j < length (uniqueRedisKeys l keys)" "value_of (cached l keys w ! j) \<noteq> Undefined"
  shows "fst (resolveEntries l arrival keys w) ! j = cached l keys w ! j"
proof -
  let ?refs = "keysToLoadFromDatasource (cached l keys w)"
  from assms(3) have "j \<notin> set ?refs" by (simp add: refs_set)
  then have "j \<notin> fst ` set (zip ?refs [0..<length ?refs])"
    using refs_zip_image[of "\<lambda>r. r" ?refs] by simp
  then show ?thesis
    by (simp add: resolveEntries_unfold[OF assms(1)] savePhase_def savePhase_untouched)
qed

lemma refs_keys_image:
  "(\<lambda>p. redisKey_of (cached l keys w ! fst p)) `
      set (zip (keysToLoadFromDatasource (cached l keys w))
               [0..<length (keysToLoadFromDatasource (cached l keys w))]) =
   redisKey l ` set (missKeys l keys w)"
proof -
  let ?es = "cached l keys w" and ?refs = "keysToLoadFromDatasource (cached l keys w)"
  have "(\<lambda>p. redisKey_of (?es ! fst p)) ` set (zip ?refs [0..<length ?refs]) =
        (\<lambda>r. redisKey_of (?es ! r)) ` set ?refs"
    by (rule refs_zip_image)
  also have "\<dots> = (\<lambda>r. redisKey l (key_of (?es ! r))) ` set ?refs"
  proof (rule image_cong[OF refl])
    fix r assume "r \<in> set ?refs"
    then have "?es ! r \<in> set ?es" by (simp add: refs_set)
    from cached_wf[OF this] show "redisKey_of (?es ! r) = redisKey l (key_of (?es ! r))" by simp
  qed
  also have "\<dots> = redisKey l ` set (missKeys l keys w)"
    unfolding missKeys_refs[symmetric] by (simp add: image_image)
  finally show ?thesis .
qed

lemma resolve_store_other:
  assumes "arrival_order (length (uniqueRedisKeys l keys)) arrival"
    "x \<notin> redisKey l ` set (missKeys l keys w)"
  shows "store (snd (resolveEntries l arrival keys w)) x = store w x"
proof -
  from assms(2) have "x \<notin> (\<lambda>p. redisKey_of (cached l keys w ! fst p)) `
      set (zip (keysToLoadFromDatasource (cached l keys w))
               [0..<length (keysToLoadFromDatasource (cached l keys w))])"
    by (simp only: refs_keys_image not_False_eq_True)
  then show ?thesis
    by (simp add: resolveEntries_unfold[OF assms(1)] savePhase_def savePhase_store_other)
qed

lemma resolve_store_written:
  assumes "arrival_order (length (uniqueRedisKeys l keys)) arrival" "i < length (missKeys l keys w)"
  shows "store (snd (resolveEntries l arrival keys w)) (redisKey l (missKeys l keys w ! i)) =
         written l (js_index (fetched l keys w) i) (store w (redisKey l (missKeys l keys w ! i)))"
proof -
  let ?refs = "keysToLoadFromDatasource (cached l keys w)"
  from assms(2) have ne: "missKeys l keys w \<noteq> []" by auto
  from assms(2) have i: "i < length ?refs" by (simp add: length_refs)
  have "store (snd (fold (saveStep l (fetched l keys w)) (zip ?refs [0..<length ?refs])
            (cached l keys w, w\<lparr>calls := calls w @ [missKeys l keys w]\<rparr>)))
          (redisKey_of (cached l keys w ! (?refs ! i))) =
        written l (js_index (fetched l keys w) i)
          (store (w\<lparr>calls := calls w @ [missKeys l keys w]\<rparr>) (redisKey_of (cached l keys w ! (?refs ! i))))"
    by (rule savePhase_store_written[OF redisKey_of_refs_distinct refs_zip_mem[OF i]])
  with ne show ?thesis
    by (simp add: resolveEntries_unfold[OF assms(1)] savePhase_def refs_nth(4)[OF assms(2)])
qed

lemma find_value_nth:
  assumes "distinct (map redisKey_of es)" "j < length es" "redisKey_of (es ! j) = redisKey l k"
  shows "find_value l es k = value_of (es ! j)"
proof -
  have "find (\<lambda>e. redisKey_of e = redisKey l k) es = Some (es ! j)"
    unfolding find_Some_iff
  proof (intro exI[of _ j] conjI allI impI)
    fix j' assume "j' < j"
    with assms(2) nth_eq_iff_index_eq[OF assms(1), of j' j]
    have "redisKey_of (es ! j') \<noteq> redisKey_of (es ! j)"
      by simp
    with assms(3) show "\<not> redisKey_of (es ! j') = redisKey l k" by simp
  qed (use assms in simp_all)
  then show ?thesis by (simp add: find_value_def)
qed

subsection \<open>Clearing keys and constructing loaders\<close>

lemma foldl_plus_sum_list: "foldl (\<lambda>acc curr. acc + curr) a xs = a + sum_list (xs :: int list)"
  by (induction xs arbitrary: a) simp_all

lemma delAll_effect:
  "delAll l keys w = (ns, w') \<Longrightarrow>
     sum_list ns = int (card (redisKey l ` set keys \<inter> dom (store w))) \<and>
     store w' = (\<lambda>x. if x \<in> redisKey l ` set keys then None else store w x) \<and>
     calls w' = calls w"
proof (induction keys arbitrary: w ns w')
  case Nil
  then show ?case by auto
next
  case (Cons key keys)
  let ?rk = "redisKey l key" and ?S = "redisKey l ` set keys"
  obtain n w1 where d: "client_del ?rk w = (n, w1)" by (cases "client_del ?rk w")
  obtain ms w2 where r: "delAll l keys w1 = (ms, w2)" by (cases "delAll l keys w1")
  from Cons.prems d r have ns: "ns = n # ms" and w': "w' = w2" by auto
  from Cons.IH[OF r] have s: "sum_list ms = int (card (?S \<inter> dom (store w1)))"
    and st: "store w2 = (\<lambda>x. if x \<in> ?S then None else store w1 x)"
    and c: "calls w2 = calls w1" by simp_all
  show ?case
  proof (cases "store w ?rk")
    case None
    with d have n: "n = 0" and w1: "w1 = w" by (auto simp: client_del_def)
    from None have "insert ?rk ?S \<inter> dom (store w) = ?S \<inter> dom (store w)" by auto
    with s n w1 have "sum_list ns = int (card (redisKey l ` set (key # keys) \<inter> dom (store w)))"
      by (simp add: ns)
    moreover from st None have "store w' = (\<lambda>x. if x \<in> redisKey l ` set (key # keys) then None else store w x)"
      by (auto simp: w' w1 fun_eq_iff)
    ultimately show ?thesis using c by (simp add: w' w1)
  next
    case (Some v)
    with d have n: "n = 1" and w1: "w1 = w\<lparr>store := (store w)(?rk := None)\<rparr>"
      by (auto simp: client_del_def)
    have "insert ?rk ?S \<inter> dom (store w) = insert ?rk (?S \<inter> dom (store w1))"
      using Some by (auto simp: w1)
    moreover have "?rk \<notin> ?S \<inter> dom (store w1)" by (simp add: w1)
    moreover have "finite (?S \<inter> dom (store w1))" by simp
    ultimately have "card (insert ?rk ?S \<inter> dom (store w)) = Suc (card (?S \<inter> dom (store w1)))"
      by simp
    with s n have "sum_list ns = int (card (redisKey l ` set (key # keys) \<inter> dom (store w)))"
      by (simp add: ns)
    moreover from st have "store w' = (\<lambda>x. if x \<in> redisKey l ` set (key # keys) then None else store w x)"
      by (auto simp: w' w1 fun_eq_iff)
    moreover have "calls w1 = calls w" by (simp add: w1)
    ultimately show ?thesis using c by (simp add: w')
  qed
qed

text \<open>
  Claim C8. \<^verbatim>\<open>clearAsync\<close> with no keys fails with the error \<open>Empty array passed\<close>
  and leaves the world as it is. With one or more keys it deletes exactly the store
  entries of those keys, answers the number of store keys that were present (a key given
  twice counts once, since its second deletion removes nothing), and calls no batch
  function.
\<close>

theorem clearAsync_result:
  "clearAsync l [] w = (Inl (Error ''Empty array passed''), w) \<and>
   (keys \<noteq> [] \<longrightarrow>
      fst (clearAsync l keys w) = Inr (int (card (redisKey l ` set keys \<inter> dom (store w)))) \<and>
      store (snd (clearAsync l keys w)) = (\<lambda>x. if x \<in> redisKey l ` set keys then None else store w x) \<and>
      calls (snd (clearAsync l keys w)) = calls w)"
proof -
  obtain ns w' where d: "delAll l keys w = (ns, w')" by (cases "delAll l keys w")
  from delAll_effect[OF d] d show ?thesis
    by (simp add: clearAsync_def foldl_plus_sum_list)
qed

theorem clearAsync_result_witness:
  "fst (clearAsync ex_loader [''a'', ''b'', ''a''] ex_cached_a) = Inr 1 \<and>
   store (snd (clearAsync ex_loader [''a'', ''b'', ''a''] ex_cached_a)) ''users:a'' = None"
  using clearAsync_result[of ex_loader ex_cached_a "[''a'', ''b'', ''a'']"]
  by (simp add: ex_loader_def ex_cached_a_def redisKey_def ex_options_def)

text \<open>
  Claim C9. With the duplicate check on, constructing a loader whose name, after the
  suffix is appended, is already in the registry fails with an assertion error. With the
  check off, or with a fresh name, construction succeeds: the loader carries the
  suffixed name, and the name is added to the registry. So constructing the same loader
  a second time fails exactly when the check is on.
\<close>

theorem constructor_duplicate:
  "(checkForDuplicates reg \<and> suffixed_name nm opts \<in> usedNames reg \<longrightarrow>
      constructor nm f opts toStr reg =
        Inl (AssertionError (''RedisDataLoader name '' @ suffixed_name nm opts @ '' already used''))) \<and>
   (\<not> checkForDuplicates reg \<or> suffixed_name nm opts \<notin> usedNames reg \<longrightarrow>
      constructor nm f opts toStr reg =
        Inr (\<lparr>name = suffixed_name nm opts, underlyingBatchLoadFn = f, options = opts,
               keyToString = toStr\<rparr>,
             reg\<lparr>usedNames := insert (suffixed_name nm opts) (usedNames reg)\<rparr>)) \<and>
   (\<forall>l reg'. constructor nm f opts toStr reg = Inr (l, reg') \<longrightarrow>
      constructor nm f opts toStr reg' =
        (if checkForDuplicates reg
         then Inl (AssertionError (''RedisDataLoader name '' @ name l @ '' already used''))
         else Inr (l, reg')))"
proof (intro conjI allI impI)
  assume "checkForDuplicates reg \<and> suffixed_name nm opts \<in> usedNames reg"
  then show "constructor nm f opts toStr reg =
        Inl (AssertionError (''RedisDataLoader name '' @ suffixed_name nm opts @ '' already used''))"
    by (simp add: constructor_def)
next
  assume "\<not> checkForDuplicates reg \<or> suffixed_name nm opts \<notin> usedNames reg"
  then show "constructor nm f opts toStr reg =
        Inr (\<lparr>name = suffixed_name nm opts, underlyingBatchLoadFn = f, options = opts,
               keyToString = toStr\<rparr>,
             reg\<lparr>usedNames := insert (suffixed_name nm opts) (usedNames reg)\<rparr>)"
    by (auto simp: constructor_def Let_def)
next
  fix l reg' assume ok: "constructor nm f opts toStr reg = Inr (l, reg')"
  then have l: "l = \<lparr>name = suffixed_name nm opts, underlyingBatchLoadFn = f, options = opts,
               keyToString = toStr\<rparr>"
    and r: "reg' = reg\<lparr>usedNames := insert (suffixed_name nm opts) (usedNames reg)\<rparr>"
    by (auto simp: constructor_def Let_def split: if_splits)
  show "constructor nm f opts toStr reg' =
        (if checkForDuplicates reg
         then Inl (AssertionError (''RedisDataLoader name '' @ name l @ '' already used''))
         else Inr (l, reg'))"
    by (simp add: constructor_def Let_def l r insert_absorb)
qed

theorem constructor_duplicate_witness:
  "constructor ''users'' (\<lambda>ks. []) ex_options id ex_registry =
     Inl (AssertionError ''RedisDataLoader name users already used'') \<and>
   constructor ''users'' (\<lambda>ks. []) ex_options id (ex_registry\<lparr>checkForDuplicates := False\<rparr>) =
     Inr (\<lparr>name = ''users'', underlyingBatchLoadFn = (\<lambda>ks. []), options = ex_options,
            keyToString = id\<rparr>,
          \<lparr>checkForDuplicates = False, usedNames = {''users''}\<rparr>) \<and>
   constructor ''orders'' (\<lambda>ks. []) ex_options id
       \<lparr>checkForDuplicates = True, usedNames = {''orders'', ''users''}\<rparr> =
     Inl (AssertionError ''RedisDataLoader name orders already used'')"
proof -
  let ?f = "\<lambda>ks :: string list. [] :: nat jsval list"
  let ?l = "\<lparr>name = ''orders'', underlyingBatchLoadFn = ?f, options = ex_options, keyToString = id\<rparr>"
  note A = constructor_duplicate[of ex_registry "''users''" ex_options ?f id]
  note B = constructor_duplicate[of "ex_registry\<lparr>checkForDuplicates := False\<rparr>" "''users''" ex_options ?f id]
  note C = constructor_duplicate[of ex_registry "''orders''" ex_options ?f id]
  have s: "suffixed_name ''users'' ex_options = ''users''" "suffixed_name ''orders'' ex_options = ''orders''"
    by (simp_all add: suffixed_name_def ex_options_def)
  from A have 1: "constructor ''users'' ?f ex_options id ex_registry =
     Inl (AssertionError ''RedisDataLoader name users already used'')"
    by (simp add: s ex_registry_def)
  from B have 2: "constructor ''users'' ?f ex_options id (ex_registry\<lparr>checkForDuplicates := False\<rparr>) =
     Inr (\<lparr>name = ''users'', underlyingBatchLoadFn = ?f, options = ex_options, keyToString = id\<rparr>,
          \<lparr>checkForDuplicates = False, usedNames = {''users''}\<rparr>)"
    by (simp add: s ex_registry_def)
  from C have first: "constructor ''orders'' ?f ex_options id ex_registry =
      Inr (?l, \<lparr>checkForDuplicates = True, usedNames = {''orders'', ''users''}\<rparr>)"
    by (simp add: s ex_registry_def)
  from C[THEN conjunct2, THEN conjunct2, rule_format, OF first]
  have 3: "constructor ''orders'' ?f ex_options id
       \<lparr>checkForDuplicates = True, usedNames = {''orders'', ''users''}\<rparr> =
     Inl (AssertionError ''RedisDataLoader name orders already used'')"
    by (simp add: ex_registry_def)
  from 1 2 3 show ?thesis by blast
qed

subsection \<open>The calls to the batch function\<close>

lemma representative_first:
  assumes "k \<in> set (representatives l keys)"
  shows "find (\<lambda>k'. redisKey l k' = redisKey l k) keys = Some k"
proof -
  from assms obtain rKey where r: "rKey \<in> set (uniqueRedisKeys l keys)"
    and k: "k = the (find (\<lambda>k. redisKey l k = rKey) keys)"
    by (auto simp: representatives_def mapRedisKeyToModelKey_def)
  from find_representative[OF r] k show ?thesis by auto
qed

lemma redisKey_representatives:
  "map (redisKey l) (representatives l keys) = uniqueRedisKeys l keys"
proof -
  have "map (redisKey l) (representatives l keys) = map redisKey_of (mapRedisKeyToModelKey l keys)"
    unfolding representatives_def map_map
    by (rule map_cong[OF refl]) (simp add: entry_wf)
  then show ?thesis by (simp add: redisKey_of_entries)
qed

lemma batch_fst:
  "fst (overridedBatchLoad l arrival keys w) = map (answer l (fst (resolveEntries l arrival keys w))) keys"
  by (simp add: overridedBatchLoad_def case_prod_unfold)

lemma batch_snd:
  "snd (overridedBatchLoad l arrival keys w) = snd (resolveEntries l arrival keys w)"
  by (simp add: overridedBatchLoad_def case_prod_unfold)

lemma batch_calls:
  assumes "arrival_order (length (uniqueRedisKeys l keys)) arrival"
  shows "calls (snd (overridedBatchLoad l arrival keys w)) =
     (if missKeys l keys w = [] then calls w else calls w @ [missKeys l keys w])"
  by (simp only: batch_snd resolve_calls[OF assms])

text \<open>
  Claim C1, as amended. Whatever the input keys and the arrival order of the store's
  answers, one batch resolution calls the batch function at most once: not at all when no
  entry is left \<^verbatim>\<open>undefined\<close> by its lookup, and otherwise once, with the
  representative keys of exactly those entries, in entry order. There is one
  representative per distinct store key, the first input key with that store key. An
  entry is left \<^verbatim>\<open>undefined\<close> when its store key is absent, and also when the
  store holds the sentinel and the handler is missing or gives null or undefined, or
  holds a string that deserializes to \<^verbatim>\<open>undefined\<close>.
\<close>

theorem fallback_once_with_unresolved_keys:
  assumes "arrival_order (length (uniqueRedisKeys l keys)) arrival"
  shows "calls (snd (overridedBatchLoad l arrival keys w)) =
           (if filter (unresolved l w) (representatives l keys) = [] then calls w
            else calls w @ [filter (unresolved l w) (representatives l keys)]) \<and>
         map (redisKey l) (representatives l keys) = uniqueRedisKeys l keys \<and>
         distinct (uniqueRedisKeys l keys) \<and>
         set (uniqueRedisKeys l keys) = redisKey l ` set keys \<and>
         (\<forall>k \<in> set (representatives l keys).
            find (\<lambda>k'. redisKey l k' = redisKey l k) keys = Some k) \<and>
         (\<forall>k. unresolved l w k \<longleftrightarrow>
            client_get w (redisKey l k) = None \<or>
            client_get w (redisKey l k) = Some NOT_FOUND_STRING \<and> nullish (call_notFound l k) \<or>
            (\<exists>d. client_get w (redisKey l k) = Some d \<and> d \<noteq> NOT_FOUND_STRING \<and>
                 deserialize (redis (options l)) k d = Undefined))"
proof (intro conjI)
  show "calls (snd (overridedBatchLoad l arrival keys w)) =
           (if filter (unresolved l w) (representatives l keys) = [] then calls w
            else calls w @ [filter (unresolved l w) (representatives l keys)])"
    using batch_calls[OF assms, of w] by (simp add: missKeys_def)
  show "map (redisKey l) (representatives l keys) = uniqueRedisKeys l keys"
    by (rule redisKey_representatives)
  show "distinct (uniqueRedisKeys l keys)" by (rule distinct_uniqueRedisKeys)
  show "set (uniqueRedisKeys l keys) = redisKey l ` set keys" by (rule set_uniqueRedisKeys)
  show "\<forall>k \<in> set (representatives l keys). find (\<lambda>k'. redisKey l k' = redisKey l k) keys = Some k"
    by (simp add: representative_first)
  show "\<forall>k. unresolved l w k \<longleftrightarrow>
            client_get w (redisKey l k) = None \<or>
            client_get w (redisKey l k) = Some NOT_FOUND_STRING \<and> nullish (call_notFound l k) \<or>
            (\<exists>d. client_get w (redisKey l k) = Some d \<and> d \<noteq> NOT_FOUND_STRING \<and>
                 deserialize (redis (options l)) k d = Undefined)"
    by (auto simp: unresolved_def split: option.splits)
qed

lemma ex_arrival: "arrival_order (length (uniqueRedisKeys ex_loader [''a'', ''a'', ''b''])) [1, 0]"
  by (simp add: arrival_order_def uniqueRedisKeys_def js_Set_def js_Set_add_def redisKey_def
      ex_loader_def ex_options_def)

theorem fallback_once_with_unresolved_keys_witness:
  "calls (snd (overridedBatchLoad ex_loader [1, 0] [''a'', ''a'', ''b''] ex_empty)) = [[''a'', ''b'']]"
  using fallback_once_with_unresolved_keys[OF ex_arrival, of ex_empty]
  by (simp add: representatives_def mapRedisKeyToModelKey_def uniqueRedisKeys_def js_Set_def
      js_Set_add_def redisKey_def ex_loader_def ex_options_def unresolved_def client_get_def
      ex_empty_def)

text \<open>
  The claim as stated fails: with no handler configured, a key whose store entry is the
  sentinel is present in the store and is handed to the batch function all the same.
\<close>

theorem fallback_for_stored_sentinel:
  "client_get ex_negative_b (redisKey ex_loader ''b'') = Some NOT_FOUND_STRING \<and>
   calls (snd (overridedBatchLoad ex_loader [0] [''b''] ex_negative_b)) = [[''b'']]"
  by code_simp

subsection \<open>The results of a batch\<close>



lemma answer_same_store_key:
  assumes "redisKey l k = redisKey l k'" "\<not> nullish (find_value l es k)"
  shows "answer l es k = answer l es k'"
  using assms by (simp add: answer_def find_value_def nullish_coalesce_def)



text \<open>
  The invariant is needed for the last part. Where two different keys collide on one
  store key and the shared entry ends \<^verbatim>\<open>undefined\<close>, each position is answered by
  the handler for its own key.
\<close>

lemma store_key_collision:
  "redisKey ex_prefix_loader ''ab'' = redisKey ex_prefix_loader ''ac'' \<and>
   fst (overridedBatchLoad ex_prefix_loader [0] [''ab'', ''ac''] ex_empty) =
     [Err (NotFoundError ''ab''), Err (NotFoundError ''ac'')]"
  by code_simp

text \<open>
  Claim C10, as amended. A position whose entry ends null or undefined is answered with
  the handler's output for the key at that position when a handler is configured and
  that output is neither null nor undefined, and with null otherwise; \<^verbatim>\<open>load\<close>
  settles with the same answer, rejecting when it is an error.
\<close>

theorem nullish_entry_answer:
  "(p < length keys \<and>
      nullish (find_value l (fst (resolveEntries l arrival keys w)) (keys ! p)) \<longrightarrow>
      fst (overridedBatchLoad l arrival keys w) ! p =
        (case notFound (options l) of
           None \<Rightarrow> Null
         | Some h \<Rightarrow> nullish_coalesce (h (keys ! p)) Null)) \<and>
   (nullish (find_value l (fst (resolveEntries l [0] [k] w)) k) \<longrightarrow>
      fst (load l k w) =
        settle (case notFound (options l) of
                  None \<Rightarrow> Null
                | Some h \<Rightarrow> nullish_coalesce (h k) Null))"
  by (auto simp: batch_fst load_def case_prod_unfold js_index_def answer_def nullish_coalesce_def
      call_notFound_def split: option.splits)

theorem nullish_entry_answer_witness:
  "fst (overridedBatchLoad ex_handler_loader [0] [''c''] ex_null_c) ! 0 = Err (NotFoundError ''c'') \<and>
   fst (load ex_handler_loader ''c'' ex_null_c) = Inl (NotFoundError ''c'') \<and>
   fst (load ex_loader ''c'' ex_null_c) = Inr Null"
proof -
  have h: "nullish (find_value ex_handler_loader
              (fst (resolveEntries ex_handler_loader [0] [''c''] ex_null_c)) ([''c''] ! 0))"
    by code_simp
  have h': "nullish (find_value ex_loader (fst (resolveEntries ex_loader [0] [''c''] ex_null_c)) ''c'')"
    by code_simp
  from h h' nullish_entry_answer[of 0 "[''c'']" ex_handler_loader "[0]" ex_null_c "''c''"]
    nullish_entry_answer[of 0 "[''c'']" ex_loader "[0]" ex_null_c "''c''"]
  show ?thesis
    by (simp add: ex_handler_loader_def ex_loader_def ex_options_def nullish_coalesce_def settle_def)
qed

text \<open>
  The claim as stated fails for a handler that returns \<^verbatim>\<open>undefined\<close>: the answer to
  an entry that ends \<^verbatim>\<open>undefined\<close> is then null, not the handler's output.
\<close>

theorem undefined_handler_output:
  "nullish (find_value ex_silent_loader
      (fst (resolveEntries ex_silent_loader [0] [''b''] ex_empty)) ''b'') \<and>
   call_notFound ex_silent_loader ''b'' = Undefined \<and>
   fst (overridedBatchLoad ex_silent_loader [0] [''b''] ex_empty) = [Null]"
  by code_simp

subsection \<open>Errors of the batch function\<close>

lemma find_value_miss:
  assumes "arrival_order (length (uniqueRedisKeys l keys)) arrival"
    "i < length (missKeys l keys w)" "redisKey l k = redisKey l (missKeys l keys w ! i)"
  shows "find_value l (fst (resolveEntries l arrival keys w)) k = js_index (fetched l keys w) i"
proof -
  let ?es = "fst (resolveEntries l arrival keys w)"
  let ?j = "keysToLoadFromDatasource (cached l keys w) ! i"
  from refs_nth(1)[OF assms(2)] have j: "?j < length (uniqueRedisKeys l keys)"
    by (simp add: length_cached)
  have d: "distinct (map redisKey_of ?es)"
    by (simp add: resolve_redisKey_of[OF assms(1)] distinct_uniqueRedisKeys)
  from j have len: "?j < length ?es" by (simp add: resolve_length[OF assms(1)])
  from j have "redisKey_of (?es ! ?j) = redisKey_of (cached l keys w ! ?j)"
    by (simp add: resolve_redisKey_of_nth[OF assms(1)] cached_nth_redisKey)
  with refs_nth(4)[OF assms(2)] assms(3) have "redisKey_of (?es ! ?j) = redisKey l k" by simp
  from find_value_nth[OF d len this] resolve_fetched_value[OF assms(1,2)] show ?thesis by simp
qed

lemma miss_index:
  assumes "j < length (cached l keys w)" "value_of (cached l keys w ! j) = Undefined"
  shows "\<exists>i<length (missKeys l keys w). keysToLoadFromDatasource (cached l keys w) ! i = j"
proof -
  from assms have "j \<in> set (keysToLoadFromDatasource (cached l keys w))"
    by (simp add: refs_set)
  then show ?thesis by (simp add: in_set_conv_nth length_refs)
qed

lemma find_value_hit:
  assumes "arrival_order (length (uniqueRedisKeys l keys)) arrival"
    "k \<in> set keys" "redisKey l k \<notin> redisKey l ` set (missKeys l keys w)"
  shows "find_value l (fst (resolveEntries l arrival keys w)) k = find_value l (cached l keys w) k"
proof -
  let ?es = "fst (resolveEntries l arrival keys w)"
  from assms(2) have "redisKey l k \<in> set (uniqueRedisKeys l keys)"
    by (simp add: set_uniqueRedisKeys)
  then obtain j where j: "j < length (uniqueRedisKeys l keys)"
    and rk: "uniqueRedisKeys l keys ! j = redisKey l k"
    by (auto simp: in_set_conv_nth)
  have hit: "value_of (cached l keys w ! j) \<noteq> Undefined"
  proof
    assume "value_of (cached l keys w ! j) = Undefined"
    with j miss_index[of j l keys w] obtain i where i: "i < length (missKeys l keys w)"
      and ij: "keysToLoadFromDatasource (cached l keys w) ! i = j"
      by (auto simp: length_cached)
    from refs_nth(4)[OF i] ij j rk have "redisKey l k = redisKey l (missKeys l keys w ! i)"
      by (simp add: cached_nth_redisKey)
    with i assms(3) show False by (metis image_eqI nth_mem)
  qed
  have d: "distinct (map redisKey_of ?es)"
    by (simp add: resolve_redisKey_of[OF assms(1)] distinct_uniqueRedisKeys)
  have d': "distinct (map redisKey_of (cached l keys w))"
    by (simp add: redisKey_of_cached distinct_uniqueRedisKeys)
  from j have len: "j < length ?es" and len': "j < length (cached l keys w)"
    by (simp_all add: resolve_length[OF assms(1)] length_cached)
  from j rk have r: "redisKey_of (?es ! j) = redisKey l k"
    and r': "redisKey_of (cached l keys w ! j) = redisKey l k"
    by (simp_all add: resolve_redisKey_of_nth[OF assms(1)] cached_nth_redisKey)
  from find_value_nth[OF d len r] find_value_nth[OF d' len' r'] resolve_hit[OF assms(1) j hit]
  show ?thesis by simp
qed

lemma same_redisKey: "same_settings l l' \<Longrightarrow> redisKey l' = redisKey l"
  by (rule ext) (simp add: same_settings_def redisKey_def split: option.splits)

lemma same_call_notFound: "same_settings l l' \<Longrightarrow> call_notFound l' = call_notFound l"
  by (rule ext) (simp add: same_settings_def call_notFound_def)

lemma same_lookup:
  assumes "same_settings l l'"
  shows "lookup l' = lookup l"
proof (intro ext)
  fix w e
  from assms have "options l' = options l" by (simp add: same_settings_def)
  then show "lookup l' w e = lookup l w e"
    by (simp add: lookup_def onGet_def same_call_notFound[OF assms] split: option.splits)
qed

lemma same_uniqueRedisKeys:
  assumes "same_settings l l'"
  shows "uniqueRedisKeys l' = uniqueRedisKeys l"
  by (rule ext) (simp add: uniqueRedisKeys_def same_redisKey[OF assms])

lemma same_entries:
  assumes "same_settings l l'"
  shows "mapRedisKeyToModelKey l' = mapRedisKeyToModelKey l"
  by (rule ext)
     (simp add: mapRedisKeyToModelKey_def same_redisKey[OF assms] same_uniqueRedisKeys[OF assms])

lemma same_cached:
  assumes "same_settings l l'"
  shows "cached l' = cached l"
  by (intro ext) (simp add: cached_def same_entries[OF assms] same_lookup[OF assms])

lemma same_unresolved:
  assumes "same_settings l l'"
  shows "unresolved l' = unresolved l"
proof (intro ext)
  fix w k
  from assms have "options l' = options l" by (simp add: same_settings_def)
  then show "unresolved l' w k = unresolved l w k"
    by (simp add: unresolved_def same_redisKey[OF assms] same_call_notFound[OF assms]
        split: option.splits)
qed

lemma same_missKeys:
  assumes "same_settings l l'"
  shows "missKeys l' = missKeys l"
  by (intro ext)
     (simp add: missKeys_def representatives_def same_entries[OF assms] same_unresolved[OF assms])

lemma same_written: "same_settings l l' \<Longrightarrow> written l' = written l"
  by (intro ext) (simp add: written_def same_settings_def)

lemma same_find_value:
  assumes "same_settings l l'"
  shows "find_value l' = find_value l"
  by (intro ext) (simp add: find_value_def same_redisKey[OF assms])

lemma same_answer:
  assumes "same_settings l l'"
  shows "answer l' = answer l"
  by (intro ext) (simp add: answer_def same_find_value[OF assms] same_call_notFound[OF assms])

lemma answer_unfold:
  "answer l es k = nullish_coalesce (nullish_coalesce (find_value l es k) (call_notFound l k)) Null"
  by (simp add: answer_def)

lemma miss_store_key:
  assumes "x \<in> redisKey l ` set (missKeys l keys w)"
  shows "\<exists>i<length (missKeys l keys w). x = redisKey l (missKeys l keys w ! i)"
  using assms by (auto simp: in_set_conv_nth)

lemma other_position_unaffected:
  assumes ao: "arrival_order (length (uniqueRedisKeys l keys)) arrival"
    and s: "same_settings l l'"
    and agree: "\<forall>j. j \<noteq> i \<longrightarrow> js_index (fetched l' keys w) j = js_index (fetched l keys w) j"
    and k: "k \<in> set keys" and ne: "redisKey l k \<noteq> redisKey l (missKeys l keys w ! i)"
  shows "answer l' (fst (resolveEntries l' arrival keys w)) k =
         answer l (fst (resolveEntries l arrival keys w)) k"
proof -
  from ao have ao': "arrival_order (length (uniqueRedisKeys l' keys)) arrival"
    by (simp add: same_uniqueRedisKeys[OF s])
  have "find_value l' (fst (resolveEntries l' arrival keys w)) k =
        find_value l (fst (resolveEntries l arrival keys w)) k"
  proof (cases "redisKey l k \<in> redisKey l ` set (missKeys l keys w)")
    case True
    from miss_store_key[OF True] obtain i' where i': "i' < length (missKeys l keys w)"
      and rk: "redisKey l k = redisKey l (missKeys l keys w ! i')" by blast
    from rk ne have "i' \<noteq> i" by auto
    with agree have a: "js_index (fetched l' keys w) i' = js_index (fetched l keys w) i'" by simp
    from i' have i'': "i' < length (missKeys l' keys w)" by (simp add: same_missKeys[OF s])
    from rk have rk': "redisKey l' k = redisKey l' (missKeys l' keys w ! i')"
      by (simp add: same_missKeys[OF s] same_redisKey[OF s])
    from find_value_miss[OF ao i' rk] find_value_miss[OF ao' i'' rk'] a show ?thesis by simp
  next
    case False
    then have "redisKey l' k \<notin> redisKey l' ` set (missKeys l' keys w)"
      by (simp add: same_missKeys[OF s] same_redisKey[OF s])
    from find_value_hit[OF ao k False] find_value_hit[OF ao' k this] show ?thesis
      by (simp add: same_cached[OF s] same_find_value[OF s])
  qed
  then show ?thesis
    by (simp add: answer_unfold same_call_notFound[OF s])
qed

lemma other_store_key_unaffected:
  assumes ao: "arrival_order (length (uniqueRedisKeys l keys)) arrival"
    and s: "same_settings l l'"
    and agree: "\<forall>j. j \<noteq> i \<longrightarrow> js_index (fetched l' keys w) j = js_index (fetched l keys w) j"
    and ne: "x \<noteq> redisKey l (missKeys l keys w ! i)"
  shows "store (snd (resolveEntries l' arrival keys w)) x =
         store (snd (resolveEntries l arrival keys w)) x"
proof -
  from ao have ao': "arrival_order (length (uniqueRedisKeys l' keys)) arrival"
    by (simp add: same_uniqueRedisKeys[OF s])
  show ?thesis
  proof (cases "x \<in> redisKey l ` set (missKeys l keys w)")
    case True
    from miss_store_key[OF True] obtain i' where i': "i' < length (missKeys l keys w)"
      and rk: "x = redisKey l (missKeys l keys w ! i')" by blast
    from rk ne have "i' \<noteq> i" by auto
    with agree have a: "js_index (fetched l' keys w) i' = js_index (fetched l keys w) i'" by simp
    from i' have i'': "i' < length (missKeys l' keys w)" by (simp add: same_missKeys[OF s])
    from resolve_store_written[OF ao i'] resolve_store_written[OF ao' i''] a rk
    show ?thesis
      by (simp add: same_missKeys[OF s] same_redisKey[OF s] same_written[OF s])
  next
    case False
    then have "x \<notin> redisKey l' ` set (missKeys l' keys w)"
      by (simp add: same_missKeys[OF s] same_redisKey[OF s])
    from resolve_store_other[OF ao False] resolve_store_other[OF ao' this] show ?thesis by simp
  qed
qed

text \<open>
  Claim C5. Let the batch function return, for the \<open>i\<close>-th key it is given, an error
  that is not a not-found error. Then the store entry of that key is what it was before
  the batch; every input position whose key has that store key receives the error; and
  the error touches nothing else: had the batch function returned anything else at index
  \<open>i\<close> and the same results elsewhere, the results at all positions with another store
  key and the store at every other key would be the same.
\<close>

theorem fallback_error_isolated:
  assumes ao: "arrival_order (length (uniqueRedisKeys l keys)) arrival"
    and i: "i < length (missKeys l keys w)"
    and err: "js_index (fetched l keys w) i = Err e" and nf: "\<not> isNotFoundError e"
  shows "store (snd (overridedBatchLoad l arrival keys w)) (redisKey l (missKeys l keys w ! i)) =
           store w (redisKey l (missKeys l keys w ! i)) \<and>
         (\<forall>p<length keys. redisKey l (keys ! p) = redisKey l (missKeys l keys w ! i) \<longrightarrow>
            fst (overridedBatchLoad l arrival keys w) ! p = Err e) \<and>
         (\<forall>l'. same_settings l l' \<and>
               (\<forall>j. j \<noteq> i \<longrightarrow> js_index (fetched l' keys w) j = js_index (fetched l keys w) j) \<longrightarrow>
            (\<forall>p<length keys. redisKey l (keys ! p) \<noteq> redisKey l (missKeys l keys w ! i) \<longrightarrow>
               fst (overridedBatchLoad l' arrival keys w) ! p =
               fst (overridedBatchLoad l arrival keys w) ! p) \<and>
            (\<forall>x. x \<noteq> redisKey l (missKeys l keys w ! i) \<longrightarrow>
               store (snd (overridedBatchLoad l' arrival keys w)) x =
               store (snd (overridedBatchLoad l arrival keys w)) x))"
proof (intro conjI allI impI)
  from resolve_store_written[OF ao i] err nf
  show "store (snd (overridedBatchLoad l arrival keys w)) (redisKey l (missKeys l keys w ! i)) =
           store w (redisKey l (missKeys l keys w ! i))"
    by (simp add: batch_snd written_def)
next
  fix p assume "p < length keys" and "redisKey l (keys ! p) = redisKey l (missKeys l keys w ! i)"
  with find_value_miss[OF ao i, of "keys ! p"] err
  show "fst (overridedBatchLoad l arrival keys w) ! p = Err e"
    by (simp add: batch_fst answer_unfold nullish_coalesce_def)
next
  fix l' p
  assume h: "same_settings l l' \<and>
      (\<forall>j. j \<noteq> i \<longrightarrow> js_index (fetched l' keys w) j = js_index (fetched l keys w) j)"
    and p: "p < length keys" and ne: "redisKey l (keys ! p) \<noteq> redisKey l (missKeys l keys w ! i)"
  from p have "keys ! p \<in> set keys" by simp
  from other_position_unaffected[OF ao conjunct1[OF h] conjunct2[OF h] this ne] p
  show "fst (overridedBatchLoad l' arrival keys w) ! p = fst (overridedBatchLoad l arrival keys w) ! p"
    by (simp add: batch_fst)
next
  fix l' x
  assume h: "same_settings l l' \<and>
      (\<forall>j. j \<noteq> i \<longrightarrow> js_index (fetched l' keys w) j = js_index (fetched l keys w) j)"
    and ne: "x \<noteq> redisKey l (missKeys l keys w ! i)"
  from other_store_key_unaffected[OF ao conjunct1[OF h] conjunct2[OF h] ne]
  show "store (snd (overridedBatchLoad l' arrival keys w)) x =
      store (snd (overridedBatchLoad l arrival keys w)) x"
    by (simp add: batch_snd)
qed

theorem fallback_error_isolated_witness:
  "store (snd (overridedBatchLoad ex_failing_loader [0, 1] [''a'', ''b'', ''a''] ex_empty)) ''users:b'' = None \<and>
   fst (overridedBatchLoad ex_failing_loader [0, 1] [''a'', ''b'', ''a''] ex_empty) ! 1 = Err (Error ''boom'') \<and>
   fst (overridedBatchLoad ex_loader [0, 1] [''a'', ''b'', ''a''] ex_empty) ! 0 =
     fst (overridedBatchLoad ex_failing_loader [0, 1] [''a'', ''b'', ''a''] ex_empty) ! 0"
proof -
  let ?keys = "[''a'', ''b'', ''a'']"
  have ao: "arrival_order (length (uniqueRedisKeys ex_failing_loader ?keys)) [0, 1]"
    by code_simp
  have i: "1 < length (missKeys ex_failing_loader ?keys ex_empty)"
    by code_simp
  have f: "fetched ex_failing_loader ?keys ex_empty = [Val 1, Err (Error ''boom'')]"
    by code_simp
  have f': "fetched ex_loader ?keys ex_empty = [Val 1, Undefined]"
    by code_simp
  have err: "js_index (fetched ex_failing_loader ?keys ex_empty) 1 = Err (Error ''boom'')"
    by (simp add: f js_index_def)
  have nf: "\<not> isNotFoundError (Error ''boom'')" by simp
  have rk: "redisKey ex_failing_loader (missKeys ex_failing_loader ?keys ex_empty ! 1) = ''users:b''"
    by code_simp
  have rk0: "redisKey ex_failing_loader (?keys ! 0) = ''users:a''"
    by code_simp
  have rk1: "redisKey ex_failing_loader (?keys ! 1) = ''users:b''"
    by code_simp
  have s: "same_settings ex_failing_loader ex_loader"
    by (simp add: same_settings_def ex_failing_loader_def)
  have agree: "\<forall>j. j \<noteq> 1 \<longrightarrow>
      js_index (fetched ex_loader ?keys ex_empty) j = js_index (fetched ex_failing_loader ?keys ex_empty) j"
    by (auto simp: f f' js_index_def nth_Cons')
  note T = fallback_error_isolated[OF ao i err nf, unfolded rk]
  from T have "store (snd (overridedBatchLoad ex_failing_loader [0, 1] ?keys ex_empty)) ''users:b'' =
      store ex_empty ''users:b''"
    by (rule conjunct1)
  then have 1: "store (snd (overridedBatchLoad ex_failing_loader [0, 1] ?keys ex_empty)) ''users:b'' = None"
    by (simp add: ex_empty_def)
  from T have "\<forall>p<length ?keys. redisKey ex_failing_loader (?keys ! p) = ''users:b'' \<longrightarrow>
      fst (overridedBatchLoad ex_failing_loader [0, 1] ?keys ex_empty) ! p = Err (Error ''boom'')"
    by (rule conjunct2[THEN conjunct1])
  from this[rule_format, of 1] rk1
  have 2: "fst (overridedBatchLoad ex_failing_loader [0, 1] ?keys ex_empty) ! 1 = Err (Error ''boom'')"
    by simp
  from T s agree have "\<forall>p<length ?keys. redisKey ex_failing_loader (?keys ! p) \<noteq> ''users:b'' \<longrightarrow>
      fst (overridedBatchLoad ex_loader [0, 1] ?keys ex_empty) ! p =
      fst (overridedBatchLoad ex_failing_loader [0, 1] ?keys ex_empty) ! p"
    by blast
  from this[rule_format, of 0] rk0
  have 3: "fst (overridedBatchLoad ex_loader [0, 1] ?keys ex_empty) ! 0 =
      fst (overridedBatchLoad ex_failing_loader [0, 1] ?keys ex_empty) ! 0"
    by simp
  from 1 2 3 show ?thesis by simp
qed

subsection \<open>Loading one key, priming, existence and cached reads\<close>

lemma uniqueRedisKeys_single: "uniqueRedisKeys l [k] = [redisKey l k]"
  by (simp add: uniqueRedisKeys_def js_Set_def js_Set_add_def)

lemma representatives_single: "representatives l [k] = [k]"
  by (simp add: representatives_def mapRedisKeyToModelKey_def uniqueRedisKeys_single)

lemma missKeys_single: "missKeys l [k] w = (if unresolved l w k then [k] else [])"
  by (simp add: missKeys_def representatives_single)

lemma arrival_order_single: "arrival_order (length (uniqueRedisKeys l [k])) [0]"
  by (simp add: uniqueRedisKeys_single arrival_order_def)

lemma cached_single:
  "cached l [k] w = [lookup l w \<lparr>redisKey_of = redisKey l k, key_of = k, value_of = Undefined\<rparr>]"
  by (simp add: cached_def mapRedisKeyToModelKey_def uniqueRedisKeys_single)

lemma load_unfold:
  "load l k w = (settle (answer l (fst (resolveEntries l [0] [k] w)) k), snd (resolveEntries l [0] [k] w))"
  by (simp add: load_def overridedBatchLoad_def case_prod_unfold js_index_def)

lemma load_hit:
  assumes "\<not> unresolved l w k"
  shows "load l k w =
     (settle (nullish_coalesce
        (nullish_coalesce
           (value_of (lookup l w \<lparr>redisKey_of = redisKey l k, key_of = k, value_of = Undefined\<rparr>))
           (call_notFound l k)) Null), w)"
  using assms
  by (simp add: load_unfold resolveEntries_unfold[OF arrival_order_single] missKeys_single
      cached_single answer_unfold find_value_def)

lemma load_miss:
  assumes "unresolved l w k"
  shows "fst (load l k w) =
           settle (nullish_coalesce
             (nullish_coalesce (js_index (underlyingBatchLoadFn l [k]) 0) (call_notFound l k)) Null)"
    and "calls (snd (load l k w)) = calls w @ [[k]]"
    and "store (snd (load l k w)) =
           (store w)(redisKey l k :=
              written l (js_index (underlyingBatchLoadFn l [k]) 0) (store w (redisKey l k)))"
proof -
  from assms have m: "missKeys l [k] w = [k]" by (simp add: missKeys_single)
  then have i: "0 < length (missKeys l [k] w)" by simp
  have f: "fetched l [k] w = underlyingBatchLoadFn l [k]" by (simp add: fetched_def m)
  from find_value_miss[OF arrival_order_single i, of k] m f
  show "fst (load l k w) =
           settle (nullish_coalesce
             (nullish_coalesce (js_index (underlyingBatchLoadFn l [k]) 0) (call_notFound l k)) Null)"
    by (simp add: load_unfold answer_unfold)
  from resolve_calls[OF arrival_order_single, of l k w] m
  show "calls (snd (load l k w)) = calls w @ [[k]]"
    by (simp add: load_unfold)
  show "store (snd (load l k w)) =
           (store w)(redisKey l k :=
              written l (js_index (underlyingBatchLoadFn l [k]) 0) (store w (redisKey l k)))"
  proof (rule ext)
    fix x
    show "store (snd (load l k w)) x =
       ((store w)(redisKey l k :=
              written l (js_index (underlyingBatchLoadFn l [k]) 0) (store w (redisKey l k)))) x"
    proof (cases "x = redisKey l k")
      case True
      with resolve_store_written[OF arrival_order_single i] m f show ?thesis
        by (simp add: load_unfold)
    next
      case False
      then have "x \<notin> redisKey l ` set (missKeys l [k] w)" by (simp add: m)
      from resolve_store_other[OF arrival_order_single this] False show ?thesis
        by (simp add: load_unfold)
    qed
  qed
qed

lemma load_negative_hit:
  assumes "store w (redisKey l k) = Some (NOT_FOUND_STRING, t)"
    "notFound (options l) = Some h" "\<not> nullish (h k)"
  shows "load l k w = (settle (h k), w)"
proof -
  from assms have "\<not> unresolved l w k"
    by (simp add: unresolved_def client_get_def call_notFound_def)
  from load_hit[OF this] assms show ?thesis
    by (simp add: lookup_def onGet_def client_get_def call_notFound_def nullish_coalesce_def)
qed

lemma load_positive_hit:
  assumes "store w (redisKey l k) = Some (d, t)" "d \<noteq> NOT_FOUND_STRING"
    "deserialize (redis (options l)) k d = v" "v \<noteq> Undefined"
  shows "load l k w = (settle (nullish_coalesce (nullish_coalesce v (call_notFound l k)) Null), w)"
proof -
  from assms have "\<not> unresolved l w k"
    by (simp add: unresolved_def client_get_def)
  from load_hit[OF this] assms show ?thesis
    by (simp add: lookup_def onGet_def client_get_def)
qed

text \<open>
  Claim C3, as amended. When the batch function answers \<^verbatim>\<open>undefined\<close> or a not-found
  error for the \<open>i\<close>-th key it is given (an answer list that is too short counts as
  \<^verbatim>\<open>undefined\<close>), the batch leaves the sentinel under that key's store key, with the
  expiry \<^verbatim>\<open>ttlNotFound\<close>, or 30 when that is not configured. If a handler is
  configured and its output for a key with that store key is neither null nor undefined,
  a following \<^verbatim>\<open>load\<close> of the key settles with that output and leaves the world as
  it is: no call to the batch function, no write.
\<close>

theorem negative_caching:
  assumes "arrival_order (length (uniqueRedisKeys l keys)) arrival"
    and "i < length (missKeys l keys w)"
    and "js_index (fetched l keys w) i = Undefined \<or>
         instanceofNotFoundError (js_index (fetched l keys w) i)"
  shows "store (snd (overridedBatchLoad l arrival keys w)) (redisKey l (missKeys l keys w ! i)) =
           Some (NOT_FOUND_STRING, case ttlNotFound (redis (options l)) of None \<Rightarrow> 30 | Some t \<Rightarrow> t) \<and>
         (\<forall>k h. redisKey l k = redisKey l (missKeys l keys w ! i) \<and>
                notFound (options l) = Some h \<and> \<not> nullish (h k) \<longrightarrow>
            load l k (snd (overridedBatchLoad l arrival keys w)) =
              (settle (h k), snd (overridedBatchLoad l arrival keys w)))"
proof -
  let ?w = "snd (overridedBatchLoad l arrival keys w)"
  from resolve_store_written[OF assms(1,2)] assms(3)
  have s: "store ?w (redisKey l (missKeys l keys w ! i)) =
      Some (NOT_FOUND_STRING, case ttlNotFound (redis (options l)) of None \<Rightarrow> 30 | Some t \<Rightarrow> t)"
    by (auto simp: batch_snd written_def)
  moreover have "load l k ?w = (settle (h k), ?w)"
    if "redisKey l k = redisKey l (missKeys l keys w ! i) \<and>
        notFound (options l) = Some h \<and> \<not> nullish (h k)" for k h
    using that s by (intro load_negative_hit) auto
  ultimately show ?thesis by blast
qed

theorem negative_caching_witness:
  "store (snd (overridedBatchLoad ex_handler_loader [1, 0] [''a'', ''a'', ''b''] ex_empty)) ''users:b'' =
     Some (''___NOTFOUND___'', 30) \<and>
   load ex_handler_loader ''b'' (snd (overridedBatchLoad ex_handler_loader [1, 0] [''a'', ''a'', ''b''] ex_empty)) =
     (Inl (NotFoundError ''b''), snd (overridedBatchLoad ex_handler_loader [1, 0] [''a'', ''a'', ''b''] ex_empty))"
proof -
  let ?keys = "[''a'', ''a'', ''b'']"
  have ao: "arrival_order (length (uniqueRedisKeys ex_handler_loader ?keys)) [1, 0]"
    by code_simp
  have i: "1 < length (missKeys ex_handler_loader ?keys ex_empty)"
    by code_simp
  have u: "js_index (fetched ex_handler_loader ?keys ex_empty) 1 = Undefined \<or>
      instanceofNotFoundError (js_index (fetched ex_handler_loader ?keys ex_empty) 1)"
    by code_simp
  have rk: "redisKey ex_handler_loader (missKeys ex_handler_loader ?keys ex_empty ! 1) = ''users:b''"
    by code_simp
  have rb: "redisKey ex_handler_loader ''b'' = ''users:b''"
    by code_simp
  have h: "notFound (options ex_handler_loader) = Some (\<lambda>k. Err (NotFoundError k))"
    by (simp add: ex_handler_loader_def ex_options_def)
  have t: "ttlNotFound (redis (options ex_handler_loader)) = None"
    by (simp add: ex_handler_loader_def ex_options_def)
  note T = negative_caching[OF ao i u, unfolded rk t]
  from T[THEN conjunct2, rule_format, of "''b''" "\<lambda>k. Err (NotFoundError k)"] rb h
    T[THEN conjunct1]
  show ?thesis by (simp add: settle_def NOT_FOUND_STRING_def)
qed

text \<open>
  The claim as stated fails without a handler, and with a handler that returns
  \<^verbatim>\<open>undefined\<close>: the sentinel is in the store after the first \<^verbatim>\<open>load\<close>, and the
  second \<^verbatim>\<open>load\<close> calls the batch function again.
\<close>

theorem negative_entry_refetched:
  "store (snd (load ex_loader ''b'' ex_empty)) ''users:b'' = Some (NOT_FOUND_STRING, 30) \<and>
   calls (snd (load ex_loader ''b'' (snd (load ex_loader ''b'' ex_empty)))) = [[''b''], [''b'']] \<and>
   store (snd (load ex_silent_loader ''b'' ex_empty)) ''users:b'' = Some (NOT_FOUND_STRING, 30) \<and>
   calls (snd (load ex_silent_loader ''b'' (snd (load ex_silent_loader ''b'' ex_empty)))) =
     [[''b''], [''b'']]"
  by code_simp

text \<open>
  Claim C4, as amended. \<^verbatim>\<open>primeAsync\<close> with an error leaves the world as it is. With a
  domain value (neither an error, nor null, nor undefined) whose serialization is not the
  sentinel and is inverted by \<^verbatim>\<open>deserialize\<close>, it writes the serialized value with the
  positive expiry, and a following \<^verbatim>\<open>load\<close> of the key resolves with the value and
  leaves the world as it is: no call to the batch function.
\<close>

theorem prime_then_load:
  "primeAsync l k (Err e) w = (False, w) \<and>
   (deserialize (redis (options l)) k (serialize (redis (options l)) (Val v)) = Val v \<and>
    serialize (redis (options l)) (Val v) \<noteq> NOT_FOUND_STRING \<longrightarrow>
      primeAsync l k (Val v) w =
        (True, w\<lparr>store := (store w)(redisKey l k \<mapsto>
                   (serialize (redis (options l)) (Val v), ttl (redis (options l))))\<rparr>) \<and>
      load l k (snd (primeAsync l k (Val v) w)) = (Inr (Val v), snd (primeAsync l k (Val v) w)))"
proof (intro conjI impI)
  show "primeAsync l k (Err e) w = (False, w)" by (simp add: primeAsync_def)
next
  assume a: "deserialize (redis (options l)) k (serialize (redis (options l)) (Val v)) = Val v \<and>
    serialize (redis (options l)) (Val v) \<noteq> NOT_FOUND_STRING"
  show p: "primeAsync l k (Val v) w =
        (True, w\<lparr>store := (store w)(redisKey l k \<mapsto>
                   (serialize (redis (options l)) (Val v), ttl (redis (options l))))\<rparr>)"
    by (simp add: primeAsync_def store_value_def client_set_def)
  have "load l k (snd (primeAsync l k (Val v) w)) =
      (settle (nullish_coalesce (nullish_coalesce (Val v) (call_notFound l k)) Null),
       snd (primeAsync l k (Val v) w))"
    by (rule load_positive_hit[where d = "serialize (redis (options l)) (Val v)"
          and t = "ttl (redis (options l))"]) (use a in \<open>simp_all add: p\<close>)
  then show "load l k (snd (primeAsync l k (Val v) w)) = (Inr (Val v), snd (primeAsync l k (Val v) w))"
    by (simp add: nullish_coalesce_def settle_def)
qed

theorem prime_then_load_witness:
  "load ex_loader ''c'' (snd (primeAsync ex_loader ''c'' (Val 3) ex_empty)) =
     (Inr (Val 3), snd (primeAsync ex_loader ''c'' (Val 3) ex_empty)) \<and>
   calls (snd (primeAsync ex_loader ''c'' (Val 3) ex_empty)) = []"
proof -
  have a: "deserialize (redis (options ex_loader)) ''c'' (serialize (redis (options ex_loader)) (Val 3)) = Val 3 \<and>
      serialize (redis (options ex_loader)) (Val 3) \<noteq> NOT_FOUND_STRING"
    by code_simp
  from prime_then_load[of ex_loader "''c''" "Error []" ex_empty 3, THEN conjunct2, rule_format, OF a]
  have "load ex_loader ''c'' (snd (primeAsync ex_loader ''c'' (Val 3) ex_empty)) =
     (Inr (Val 3), snd (primeAsync ex_loader ''c'' (Val 3) ex_empty))"
    by (rule conjunct2)
  moreover have "calls (snd (primeAsync ex_loader ''c'' (Val 3) ex_empty)) = []"
    by code_simp
  ultimately show ?thesis by (rule conjI)
qed

text \<open>
  The claim as stated fails for the value \<^verbatim>\<open>null\<close> when a handler is configured: the
  following \<^verbatim>\<open>load\<close> settles with the handler's output. It also fails for a value
  whose serialization is the sentinel: the following \<^verbatim>\<open>load\<close> takes it for a missing
  value. In both cases \<^verbatim>\<open>deserialize\<close> inverts \<^verbatim>\<open>serialize\<close>.
\<close>

theorem prime_null_or_sentinel:
  "deserialize (redis (options ex_handler_loader)) ''c''
     (serialize (redis (options ex_handler_loader)) Null) = Null \<and>
   fst (load ex_handler_loader ''c'' (snd (primeAsync ex_handler_loader ''c'' Null ex_empty))) =
     Inl (NotFoundError ''c'') \<and>
   deserialize (redis (options ex_text_loader)) ''n''
     (serialize (redis (options ex_text_loader)) (Val ''___NOTFOUND___'')) = Val ''___NOTFOUND___'' \<and>
   fst (load ex_text_loader ''n'' (snd (primeAsync ex_text_loader ''n'' (Val ''___NOTFOUND___'') ex_empty))) =
     Inr Null"
  by code_simp

text \<open>
  Claim C6. \<^verbatim>\<open>exist\<close> answers true for a key whose store entry is not the sentinel and
  false for a key whose store entry is the sentinel, leaving the world as it is (no call
  to the batch function). For a key with no store entry it runs \<^verbatim>\<open>load\<close>: it answers
  whether the resolved value is not \<^verbatim>\<open>undefined\<close>, answers false when \<^verbatim>\<open>load\<close>
  rejects with a not-found error, and rejects with any other error of \<^verbatim>\<open>load\<close>.
  That \<^verbatim>\<open>load\<close> calls the batch function once, with the key; since it never
  resolves with \<^verbatim>\<open>undefined\<close>, the answer is true whenever it resolves.
\<close>

theorem exist_cases:
  "(\<forall>d t. store w (redisKey l k) = Some (d, t) \<and> d \<noteq> NOT_FOUND_STRING \<longrightarrow>
      exist l k w = (Inr True, w)) \<and>
   (\<forall>t. store w (redisKey l k) = Some (NOT_FOUND_STRING, t) \<longrightarrow> exist l k w = (Inr False, w)) \<and>
   (store w (redisKey l k) = None \<longrightarrow>
      exist l k w =
        (case load l k w of
           (Inr v, w') \<Rightarrow> (Inr (v \<noteq> Undefined), w')
         | (Inl e, w') \<Rightarrow> if isNotFoundError e then (Inr False, w') else (Inl e, w')) \<and>
      calls (snd (exist l k w)) = calls w @ [[k]] \<and>
      fst (exist l k w) =
        (case nullish_coalesce
                (nullish_coalesce (js_index (underlyingBatchLoadFn l [k]) 0) (call_notFound l k))
                Null of
           Err e \<Rightarrow> if isNotFoundError e then Inr False else Inl e
         | _ \<Rightarrow> Inr True))"
proof (intro conjI allI impI)
  fix d t assume "store w (redisKey l k) = Some (d, t) \<and> d \<noteq> NOT_FOUND_STRING"
  then show "exist l k w = (Inr True, w)"
    by (simp add: exist_def exist_script_def client_get_def)
next
  fix t assume "store w (redisKey l k) = Some (NOT_FOUND_STRING, t)"
  then show "exist l k w = (Inr False, w)"
    by (simp add: exist_def exist_script_def client_get_def)
next
  assume n: "store w (redisKey l k) = None"
  then show e: "exist l k w =
        (case load l k w of
           (Inr v, w') \<Rightarrow> (Inr (v \<noteq> Undefined), w')
         | (Inl e, w') \<Rightarrow> if isNotFoundError e then (Inr False, w') else (Inl e, w'))"
    by (simp add: exist_def exist_script_def client_get_def)
  from n have u: "unresolved l w k" by (simp add: unresolved_def client_get_def)
  have s: "snd (exist l k w) = snd (load l k w)"
    unfolding e by (simp add: case_prod_unfold split: sum.splits)
  from load_miss(2)[OF u] show "calls (snd (exist l k w)) = calls w @ [[k]]"
    by (simp add: s)
  let ?a = "nullish_coalesce
     (nullish_coalesce (js_index (underlyingBatchLoadFn l [k]) 0) (call_notFound l k)) Null"
  have "?a \<noteq> Undefined" by (auto simp: nullish_coalesce_def)
  with load_miss(1)[OF u]
  show "fst (exist l k w) =
      (case ?a of Err e \<Rightarrow> if isNotFoundError e then Inr False else Inl e | _ \<Rightarrow> Inr True)"
    unfolding e by (cases ?a) (simp_all add: case_prod_unfold settle_def split: sum.splits)
qed

theorem exist_cases_witness:
  "exist ex_loader ''a'' ex_cached_a = (Inr True, ex_cached_a) \<and>
   exist ex_loader ''b'' ex_negative_b = (Inr False, ex_negative_b) \<and>
   fst (exist ex_loader ''a'' ex_empty) = Inr True \<and>
   fst (exist ex_handler_loader ''b'' ex_empty) = Inr False \<and>
   fst (exist ex_failing_loader ''b'' ex_empty) = Inl (Error ''boom'')"
proof -
  have a: "store ex_cached_a (redisKey ex_loader ''a'') = Some (''x'', 60) \<and> ''x'' \<noteq> NOT_FOUND_STRING"
    by code_simp
  have b: "store ex_negative_b (redisKey ex_loader ''b'') = Some (NOT_FOUND_STRING, 30)"
    by code_simp
  have n1: "store ex_empty (redisKey ex_loader ''a'') = None"
    and n2: "store ex_empty (redisKey ex_handler_loader ''b'') = None"
    and n3: "store ex_empty (redisKey ex_failing_loader ''b'') = None"
    by (simp_all add: ex_empty_def)
  have l1: "fst (load ex_loader ''a'' ex_empty) = Inr (Val 1)"
    and l2: "fst (load ex_handler_loader ''b'' ex_empty) = Inl (NotFoundError ''b'')"
    and l3: "fst (load ex_failing_loader ''b'' ex_empty) = Inl (Error ''boom'')"
    by code_simp+
  from exist_cases[of ex_cached_a ex_loader "''a''", THEN conjunct1, rule_format, OF a]
    exist_cases[of ex_negative_b ex_loader "''b''", THEN conjunct2, THEN conjunct1, rule_format, OF b]
    exist_cases[of ex_empty ex_loader "''a''", THEN conjunct2, THEN conjunct2, rule_format, OF n1]
    exist_cases[of ex_empty ex_handler_loader "''b''", THEN conjunct2, THEN conjunct2, rule_format, OF n2]
    exist_cases[of ex_empty ex_failing_loader "''b''", THEN conjunct2, THEN conjunct2, rule_format, OF n3]
    l1 l2 l3
  show ?thesis by (simp add: case_prod_unfold split: sum.splits)
qed

lemma foldl_js_Set_add_prefix: "\<exists>ys. foldl js_Set_add s xs = s @ ys"
proof (induction xs arbitrary: s)
  case Nil show ?case by simp
next
  case (Cons x xs)
  from Cons.IH[of "js_Set_add s x"] obtain ys where ys: "foldl js_Set_add (js_Set_add s x) xs = js_Set_add s x @ ys"
    by blast
  obtain zs where zs: "js_Set_add s x = s @ zs"
    by (cases "x \<in> set s") (simp_all add: js_Set_add_def)
  have "foldl js_Set_add s (x # xs) = s @ (zs @ ys)"
    by (simp add: ys) (simp add: zs)
  then show ?case by blast
qed

lemma representatives_Cons: "\<exists>reps. representatives l (k # ks) = k # reps"
proof -
  from foldl_js_Set_add_prefix[of "[redisKey l k]" "map (redisKey l) ks"]
  obtain ys where "uniqueRedisKeys l (k # ks) = redisKey l k # ys"
    by (auto simp: uniqueRedisKeys_def js_Set_def js_Set_add_def)
  then show ?thesis
    by (simp add: representatives_def mapRedisKeyToModelKey_def)
qed

lemma first_key_store:
  assumes ao: "arrival_order (length (uniqueRedisKeys l (k # ks))) arrival"
  shows "store (snd (overridedBatchLoad l arrival (k # ks) w)) (redisKey l k) =
     (if unresolved l w k
      then written l (js_index (fetched l (k # ks) w) 0) (store w (redisKey l k))
      else store w (redisKey l k))"
proof -
  from representatives_Cons[of l k ks] obtain reps where reps: "representatives l (k # ks) = k # reps" by blast
  have "distinct (map (redisKey l) (representatives l (k # ks)))"
    by (simp add: redisKey_representatives distinct_uniqueRedisKeys)
  with reps have notin: "redisKey l k \<notin> redisKey l ` set reps" by simp
  show ?thesis
  proof (cases "unresolved l w k")
    case True
    with reps have m: "missKeys l (k # ks) w = k # filter (unresolved l w) reps"
      by (simp add: missKeys_def)
    then have "0 < length (missKeys l (k # ks) w)" by simp
    from resolve_store_written[OF ao this] True m show ?thesis
      by (simp add: batch_snd)
  next
    case False
    with reps have "missKeys l (k # ks) w = filter (unresolved l w) reps"
      by (simp add: missKeys_def)
    with notin have "redisKey l k \<notin> redisKey l ` set (missKeys l (k # ks) w)" by auto
    from resolve_store_other[OF ao this] False show ?thesis
      by (simp add: batch_snd)
  qed
qed

lemma loadCached_no_keys: "loadCached l arrival [] w = (Undefined, snd (overridedBatchLoad l arrival [] w))"
  by (simp add: loadCached_def case_prod_unfold js_index_def)

lemma loadCached_snd:
  "snd (loadCached l arrival keys w) = snd (resolveEntries l arrival keys w)"
  by (simp add: loadCached_def case_prod_unfold Let_def batch_snd)

text \<open>
  Claim C7. \<^verbatim>\<open>loadCached\<close> with a first key \<open>k\<close> runs the batch resolution over all
  the keys, reads the store again in the world the batch leaves, and returns the
  classification of what the store holds for \<open>k\<close> alone: null for no entry, the
  handler's output or else null for the sentinel, the deserialized string otherwise.
  The world it leaves is that of the full batch: the batch function is called at most
  once, with the representatives of all the keys whose lookup left their entry
  \<^verbatim>\<open>undefined\<close>; the store entry of each of them is what the result of the batch
  function for it writes (the sentinel, the serialized value, or nothing for an error);
  every other store key is untouched; and every input key whose representative was left
  \<^verbatim>\<open>undefined\<close> has its store key among those. In particular the store holds for
  \<open>k\<close> its old entry when the lookup of \<open>k\<close> resolved, and otherwise what the
  first result of the batch function writes.
\<close>

theorem loadCached_first_key:
  "loadCached l arrival (k # ks) w =
     (classify l k (client_get (snd (overridedBatchLoad l arrival (k # ks) w)) (redisKey l k)),
      snd (overridedBatchLoad l arrival (k # ks) w)) \<and>
   classify l k None = Null \<and>
   classify l k (Some NOT_FOUND_STRING) =
     (case notFound (options l) of None \<Rightarrow> Null | Some h \<Rightarrow> nullish_coalesce (h k) Null) \<and>
   (d \<noteq> NOT_FOUND_STRING \<longrightarrow> classify l k (Some d) = deserialize (redis (options l)) k d) \<and>
   (arrival_order (length (uniqueRedisKeys l (k # ks))) arrival \<longrightarrow>
      store (snd (overridedBatchLoad l arrival (k # ks) w)) (redisKey l k) =
        (if unresolved l w k
         then written l (js_index (fetched l (k # ks) w) 0) (store w (redisKey l k))
         else store w (redisKey l k)) \<and>
      calls (snd (loadCached l arrival (k # ks) w)) =
        (if filter (unresolved l w) (representatives l (k # ks)) = [] then calls w
         else calls w @ [filter (unresolved l w) (representatives l (k # ks))]) \<and>
      (\<forall>i<length (filter (unresolved l w) (representatives l (k # ks))).
         store (snd (loadCached l arrival (k # ks) w))
           (redisKey l (filter (unresolved l w) (representatives l (k # ks)) ! i)) =
         written l
           (js_index (underlyingBatchLoadFn l (filter (unresolved l w) (representatives l (k # ks)))) i)
           (store w (redisKey l (filter (unresolved l w) (representatives l (k # ks)) ! i)))) \<and>
      (\<forall>x. x \<notin> redisKey l ` set (filter (unresolved l w) (representatives l (k # ks))) \<longrightarrow>
         store (snd (loadCached l arrival (k # ks) w)) x = store w x) \<and>
      (\<forall>k' \<in> set (k # ks).
         unresolved l w (the (find (\<lambda>k''. redisKey l k'' = redisKey l k') (k # ks))) \<longrightarrow>
         redisKey l k' \<in> redisKey l ` set (filter (unresolved l w) (representatives l (k # ks)))))"
proof (intro conjI impI)
  show "loadCached l arrival (k # ks) w =
     (classify l k (client_get (snd (overridedBatchLoad l arrival (k # ks) w)) (redisKey l k)),
      snd (overridedBatchLoad l arrival (k # ks) w))"
    by (simp add: loadCached_def case_prod_unfold js_index_def)
  show "classify l k None = Null" by (simp add: classify_def)
  show "classify l k (Some NOT_FOUND_STRING) =
     (case notFound (options l) of None \<Rightarrow> Null | Some h \<Rightarrow> nullish_coalesce (h k) Null)"
    by (simp add: classify_def call_notFound_def nullish_coalesce_def split: option.splits)
  show "classify l k (Some d) = deserialize (redis (options l)) k d" if "d \<noteq> NOT_FOUND_STRING"
    using that by (simp add: classify_def)
next
  assume ao: "arrival_order (length (uniqueRedisKeys l (k # ks))) arrival"
  let ?keys = "k # ks"
  let ?m = "filter (unresolved l w) (representatives l ?keys)"
  have m: "?m = missKeys l ?keys w" by (simp add: missKeys_def)
  show "store (snd (overridedBatchLoad l arrival ?keys w)) (redisKey l k) =
        (if unresolved l w k
         then written l (js_index (fetched l ?keys w) 0) (store w (redisKey l k))
         else store w (redisKey l k))"
    using ao by (rule first_key_store)
  show "calls (snd (loadCached l arrival ?keys w)) = (if ?m = [] then calls w else calls w @ [?m])"
    using resolve_calls[OF ao, of w] by (simp only: m loadCached_snd)
  show "\<forall>i<length ?m. store (snd (loadCached l arrival ?keys w)) (redisKey l (?m ! i)) =
         written l (js_index (underlyingBatchLoadFn l ?m) i) (store w (redisKey l (?m ! i)))"
  proof (intro allI impI)
    fix i assume "i < length ?m"
    then have i: "i < length (missKeys l ?keys w)" unfolding m .
    from resolve_store_written[OF ao i]
    show "store (snd (loadCached l arrival ?keys w)) (redisKey l (?m ! i)) =
         written l (js_index (underlyingBatchLoadFn l ?m) i) (store w (redisKey l (?m ! i)))"
      by (simp only: m loadCached_snd fetched_def)
  qed
  show "\<forall>x. x \<notin> redisKey l ` set ?m \<longrightarrow> store (snd (loadCached l arrival ?keys w)) x = store w x"
  proof (intro allI impI)
    fix x assume "x \<notin> redisKey l ` set ?m"
    then have x: "x \<notin> redisKey l ` set (missKeys l ?keys w)" unfolding m .
    from resolve_store_other[OF ao x]
    show "store (snd (loadCached l arrival ?keys w)) x = store w x"
      by (simp only: loadCached_snd)
  qed
  show "\<forall>k' \<in> set ?keys.
         unresolved l w (the (find (\<lambda>k''. redisKey l k'' = redisKey l k') ?keys)) \<longrightarrow>
         redisKey l k' \<in> redisKey l ` set ?m"
  proof (intro ballI impI)
    fix k' assume k': "k' \<in> set ?keys"
      and u: "unresolved l w (the (find (\<lambda>k''. redisKey l k'' = redisKey l k') ?keys))"
    from k' have mem: "redisKey l k' \<in> set (uniqueRedisKeys l ?keys)"
      unfolding set_uniqueRedisKeys by (rule imageI)
    from find_representative[OF mem] obtain r where
      f: "find (\<lambda>k''. redisKey l k'' = redisKey l k') ?keys = Some r" and rk: "redisKey l r = redisKey l k'"
      by blast
    have "r \<in> (\<lambda>rKey. the (find (\<lambda>k''. redisKey l k'' = rKey) ?keys)) ` set (uniqueRedisKeys l ?keys)"
    proof (rule image_eqI)
      from f show "r = the (find (\<lambda>k''. redisKey l k'' = redisKey l k') ?keys)" by simp
      show "redisKey l k' \<in> set (uniqueRedisKeys l ?keys)" by (rule mem)
    qed
    then have "r \<in> set (representatives l ?keys)"
      by (simp add: representatives_def mapRedisKeyToModelKey_def comp_def image_image)
    with u f have "r \<in> set ?m" by simp
    then have "redisKey l r \<in> redisKey l ` set ?m" by (rule imageI)
    with rk show "redisKey l k' \<in> redisKey l ` set ?m" by simp
  qed
qed

theorem loadCached_first_key_witness:
  "fst (loadCached ex_loader [0, 1] [''a'', ''b''] ex_empty) = Val 1 \<and>
   fst (loadCached ex_loader [0, 1] [''b'', ''a''] ex_empty) = Null \<and>
   fst (loadCached ex_handler_loader [0, 1] [''b'', ''a''] ex_empty) = Err (NotFoundError ''b'') \<and>
   fst (loadCached ex_failing_loader [0, 1] [''b'', ''a''] ex_empty) = Null \<and>
   store (snd (overridedBatchLoad ex_loader [0, 1] [''a'', ''b''] ex_empty)) ''users:a'' =
     Some (''x'', 60) \<and>
   calls (snd (loadCached ex_loader [0, 1] [''a'', ''b''] ex_empty)) = [[''a'', ''b'']] \<and>
   store (snd (loadCached ex_loader [0, 1] [''a'', ''b''] ex_empty)) ''users:b'' =
     Some (''___NOTFOUND___'', 30) \<and>
   store (snd (loadCached ex_loader [0, 1] [''a'', ''b''] ex_empty)) ''users:z'' = None"
proof -
  have g1: "client_get (snd (overridedBatchLoad ex_loader [0, 1] [''a'', ''b''] ex_empty))
      (redisKey ex_loader ''a'') = Some ''x''"
    and g2: "client_get (snd (overridedBatchLoad ex_loader [0, 1] [''b'', ''a''] ex_empty))
      (redisKey ex_loader ''b'') = Some NOT_FOUND_STRING"
    and g3: "client_get (snd (overridedBatchLoad ex_handler_loader [0, 1] [''b'', ''a''] ex_empty))
      (redisKey ex_handler_loader ''b'') = Some NOT_FOUND_STRING"
    and g4: "client_get (snd (overridedBatchLoad ex_failing_loader [0, 1] [''b'', ''a''] ex_empty))
      (redisKey ex_failing_loader ''b'') = None"
    by code_simp+
  have x: "''x'' \<noteq> NOT_FOUND_STRING" by code_simp
  note A = loadCached_first_key[of ex_loader "[0, 1]" "''a''" "[''b'']" ex_empty "''x''"]
  note B = loadCached_first_key[of ex_loader "[0, 1]" "''b''" "[''a'']" ex_empty "''x''"]
  note C = loadCached_first_key[of ex_handler_loader "[0, 1]" "''b''" "[''a'']" ex_empty "''x''"]
  note D = loadCached_first_key[of ex_failing_loader "[0, 1]" "''b''" "[''a'']" ex_empty "''x''"]
  from A x have "classify ex_loader ''a'' (Some ''x'') = deserialize (redis (options ex_loader)) ''a'' ''x''"
    by blast
  then have 1: "fst (loadCached ex_loader [0, 1] [''a'', ''b''] ex_empty) = Val 1"
    unfolding A[THEN conjunct1] g1 fst_conv
    by (simp add: ex_loader_def ex_options_def)
  from B have "classify ex_loader ''b'' (Some NOT_FOUND_STRING) =
      (case notFound (options ex_loader) of None \<Rightarrow> Null | Some h \<Rightarrow> nullish_coalesce (h ''b'') Null)"
    by blast
  then have 2: "fst (loadCached ex_loader [0, 1] [''b'', ''a''] ex_empty) = Null"
    unfolding B[THEN conjunct1] g2 fst_conv
    by (simp add: ex_loader_def ex_options_def)
  from C have "classify ex_handler_loader ''b'' (Some NOT_FOUND_STRING) =
      (case notFound (options ex_handler_loader) of None \<Rightarrow> Null
       | Some h \<Rightarrow> nullish_coalesce (h ''b'') Null)"
    by blast
  then have 3: "fst (loadCached ex_handler_loader [0, 1] [''b'', ''a''] ex_empty) = Err (NotFoundError ''b'')"
    unfolding C[THEN conjunct1] g3 fst_conv
    by (simp add: ex_loader_def ex_handler_loader_def ex_options_def nullish_coalesce_def)
  from D have "classify ex_failing_loader ''b'' None = Null"
    by blast
  then have 4: "fst (loadCached ex_failing_loader [0, 1] [''b'', ''a''] ex_empty) = Null"
    unfolding D[THEN conjunct1] g4 fst_conv .
  have ao: "arrival_order (length (uniqueRedisKeys ex_loader [''a'', ''b''])) [0, 1]"
    by code_simp
  have u: "unresolved ex_loader ex_empty ''a''" by code_simp
  have f: "js_index (fetched ex_loader [''a'', ''b''] ex_empty) 0 = Val 1" by code_simp
  have rk: "redisKey ex_loader ''a'' = ''users:a''" by code_simp
  have wr: "written ex_loader (Val 1) (store ex_empty ''users:a'') = Some (''x'', 60)" by code_simp
  note W = A[THEN conjunct2, THEN conjunct2, THEN conjunct2, THEN conjunct2, THEN mp, OF ao]
  have m: "filter (unresolved ex_loader ex_empty) (representatives ex_loader [''a'', ''b'']) = [''a'', ''b'']"
    by code_simp
  have rkb: "redisKey ex_loader ''b'' = ''users:b''" by code_simp
  have wb: "written ex_loader (js_index (underlyingBatchLoadFn ex_loader [''a'', ''b'']) 1)
      (store ex_empty ''users:b'') = Some (''___NOTFOUND___'', 30)"
    by code_simp
  have i1: "1 < length [''a'', ''b'']" by simp
  have nb: "[''a'', ''b''] ! 1 = ''b''" by simp
  have z: "''users:z'' \<notin> redisKey ex_loader ` set [''a'', ''b'']" by code_simp
  have e: "store ex_empty ''users:z'' = None" by code_simp
  from W[THEN conjunct1]
  have 5: "store (snd (overridedBatchLoad ex_loader [0, 1] [''a'', ''b''] ex_empty)) ''users:a'' =
     Some (''x'', 60)"
    unfolding rk f wr using u by simp
  from W[THEN conjunct2, THEN conjunct1]
  have 6: "calls (snd (loadCached ex_loader [0, 1] [''a'', ''b''] ex_empty)) = [[''a'', ''b'']]"
    unfolding m by (simp add: ex_empty_def)
  from W[THEN conjunct2, THEN conjunct2, THEN conjunct1, unfolded m, rule_format, OF i1]
  have 7: "store (snd (loadCached ex_loader [0, 1] [''a'', ''b''] ex_empty)) ''users:b'' =
     Some (''___NOTFOUND___'', 30)"
    by (simp only: nb rkb wb)
  from W[THEN conjunct2, THEN conjunct2, THEN conjunct2, THEN conjunct1, unfolded m, rule_format, OF z]
  have 8: "store (snd (loadCached ex_loader [0, 1] [''a'', ''b''] ex_empty)) ''users:z'' = None"
    by (simp only: e)
  from 1 2 3 4 5 6 7 8 show ?thesis by blast
qed

end
